theory Spec2Isabelle
  imports Main "HOL-Library.Word" "HOL-Library.Multiset"
begin

section \<open>BabyTask: a graph based task library\<close>

text \<open>
  A shallow embedding of the BabyTask sources (Queue.h, ThreadPool.h, BaseTaskNode.h,
  TaskNode.h, TaskGraph.h and the wiring of Tests.cpp).

  Conventions of the embedding.
  \<^item> A node handle (the \<^verbatim>\<open>TaskNode*\<close> returned by \<^verbatim>\<open>makeTaskNode\<close>) is the position of the
    node in the list \<^verbatim>\<open>mNodes\<close> of its graph; \<^verbatim>\<open>std::list\<close> never moves its elements and
    \<^verbatim>\<open>emplace_back\<close> appends, so the position is as stable as the pointer.
  \<^item> \<^verbatim>\<open>std::size_t\<close> is a 64 bit word: \<open>+\<close> and \<open>-\<close> wrap around.
  \<^item> A callable is a function on an explicit world \<open>'w\<close>, the state captured by reference
    in the closures of the caller (the string \<^verbatim>\<open>out\<close> of Test1, for example).
  \<^item> An exception is a value of type \<open>error\<close> on the left of a sum.
\<close>

subsection \<open>Queue.h\<close>

text \<open>
  \<^verbatim>\<open>template<typename T> class Queue { std::queue<T> mQueue; std::mutex mMutex; ... }\<close>
  Under sequential use the mutex is always free, so only the \<^verbatim>\<open>std::queue\<close> is kept:
  the front of the queue is the head of the list.
\<close>

record 'a Queue =
  mQueue :: "'a list"

definition Queue_new :: "'a Queue" where
  "Queue_new = \<lparr>mQueue = []\<rparr>"

text \<open>\<^verbatim>\<open>push\<close>: \<^verbatim>\<open>mQueue.push(xi_element); return true;\<close> (both overloads).\<close>

definition push :: "'a Queue \<Rightarrow> 'a \<Rightarrow> bool \<times> 'a Queue" where
  "push q xi_element = (True, q\<lparr>mQueue := mQueue q @ [xi_element]\<rparr>)"

text \<open>
  \<^verbatim>\<open>pop\<close>: \<^verbatim>\<open>if (mQueue.empty()) return false; xo_element = mQueue.front(); mQueue.pop(); return true;\<close>
  The out parameter \<^verbatim>\<open>xo_element\<close> is passed in and returned: it keeps its value when the
  queue is empty.
\<close>

definition pop :: "'a Queue \<Rightarrow> 'a \<Rightarrow> bool \<times> 'a \<times> 'a Queue" where
  "pop q xo_element =
     (case mQueue q of
        [] \<Rightarrow> (False, xo_element, q)
      | front # rest \<Rightarrow> (True, front, q\<lparr>mQueue := rest\<rparr>))"

definition empty_queue :: "'a Queue \<Rightarrow> bool" where
  "empty_queue q = (mQueue q = [])"

text \<open>Pushing a sequence of elements, one call of \<^verbatim>\<open>push\<close> per element.\<close>

fun push_all :: "'a Queue \<Rightarrow> 'a list \<Rightarrow> 'a Queue" where
  "push_all q [] = q"
| "push_all q (x # xs) = push_all (snd (push q x)) xs"

text \<open>
  Popping \<open>n\<close> times, collecting what the successful calls return (a failed call
  contributes nothing and leaves the queue as it is).
\<close>

fun pop_n :: "nat \<Rightarrow> 'a Queue \<Rightarrow> 'a \<Rightarrow> 'a list \<times> 'a Queue" where
  "pop_n 0 q xo = ([], q)"
| "pop_n (Suc n) q xo =
     (case pop q xo of
        (False, xo', q') \<Rightarrow> pop_n n q' xo'
      | (True, xo', q') \<Rightarrow> (case pop_n n q' xo' of (ys, q'') \<Rightarrow> (xo' # ys, q'')))"

subsection \<open>BaseTaskNode.h and TaskNode.h: the node\<close>

text \<open>The exceptions of the library: \<^verbatim>\<open>std::logic_error\<close> with its message.\<close>

datatype error = LogicError string

text \<open>
  The stored callable \<^verbatim>\<open>mTask\<close>. Its arguments \<^verbatim>\<open>mArguments\<close> are a default constructed
  tuple that no code ever assigns, so the callable applied to them is a function of the
  world alone. \<open>VoidTask\<close> is a callable whose \<^verbatim>\<open>ReturnType\<close> is \<^verbatim>\<open>void\<close>; \<open>ValueTask\<close>
  returns a value of the universal result type \<open>'v\<close>.
\<close>

datatype ('v, 'w) TaskCallback = VoidTask "'w \<Rightarrow> 'w" | ValueTask "'w \<Rightarrow> 'v \<times> 'w"

text \<open>
  \<^verbatim>\<open>class TaskNode final : public BaseTaskNode\<close>, with the members of both classes.
  The two compile time facts that the code branches on are fields as well:
  \<open>Args_size\<close> is \<^verbatim>\<open>std::tuple_size<std::tuple<Args...>>::value\<close> and
  \<open>ReturnType_copyable\<close> is \<^verbatim>\<open>std::is_copy_constructible<ReturnType>::value\<close>.
  A \<^verbatim>\<open>SubscribeNoArgCallback\<close> in \<^verbatim>\<open>mDescendantArguments\<close> is always
  \<^verbatim>\<open>std::bind(&TaskNode::onArgumentReady, child)\<close>, stored as the handle of the child.
  The back pointer \<^verbatim>\<open>mGraph\<close> is implicit: every operation that follows it takes the
  graph.
\<close>

record ('v, 'w) TaskNode =
  mName :: string
  mDescendants :: "nat list"
  mTask :: "('v, 'w) TaskCallback"
  Args_size :: nat
  ReturnType_copyable :: bool
  mResult :: "'v option"
  mPendingCount :: "64 word"
  mParentCount :: "64 word"
  mDescendantTasks :: "('v \<Rightarrow> 'w \<Rightarrow> 'w) list"
  mDescendantArguments :: "nat list"

text \<open>
  The constructor: \<^verbatim>\<open>mPendingCount\<close> and \<^verbatim>\<open>mParentCount\<close> start at the number of arguments
  of the callable, the result is empty and all lists are empty.
\<close>

definition TaskNode_new ::
  "('v, 'w) TaskCallback \<Rightarrow> nat \<Rightarrow> bool \<Rightarrow> string \<Rightarrow> ('v, 'w) TaskNode" where
  "TaskNode_new xi_task arity copyable xi_name =
     \<lparr>mName = xi_name, mDescendants = [], mTask = xi_task, Args_size = arity,
      ReturnType_copyable = copyable, mResult = None,
      mPendingCount = of_nat arity, mParentCount = of_nat arity,
      mDescendantTasks = [], mDescendantArguments = []\<rparr>"

text \<open>\<^verbatim>\<open>updateParentCount\<close>: \<^verbatim>\<open>++mParentCount; ++mPendingCount;\<close>\<close>

definition updateParentCount :: "('v, 'w) TaskNode \<Rightarrow> ('v, 'w) TaskNode" where
  "updateParentCount n =
     n\<lparr>mParentCount := mParentCount n + 1, mPendingCount := mPendingCount n + 1\<rparr>"

text \<open>\<^verbatim>\<open>addChild\<close>: \<^verbatim>\<open>mDescendantArguments.push_back(descendant);\<close>\<close>

definition addChild :: "('v, 'w) TaskNode \<Rightarrow> nat \<Rightarrow> ('v, 'w) TaskNode" where
  "addChild n descendant = n\<lparr>mDescendantArguments := mDescendantArguments n @ [descendant]\<rparr>"

text \<open>\<^verbatim>\<open>reset\<close>: \<^verbatim>\<open>mResult.reset(); mPendingCount = mParentCount;\<close>\<close>

definition TaskNode_reset :: "('v, 'w) TaskNode \<Rightarrow> ('v, 'w) TaskNode" where
  "TaskNode_reset n = n\<lparr>mResult := None, mPendingCount := mParentCount n\<rparr>"

definition getPendingCount :: "('v, 'w) TaskNode \<Rightarrow> 64 word" where
  "getPendingCount n = mPendingCount n"

text \<open>
  \<^verbatim>\<open>getValue\<close>: throws when \<^verbatim>\<open>mResult\<close> is empty; otherwise returns the stored value, by
  \<^verbatim>\<open>std::move(mResult.value())\<close> when the result type is not copyable. Moving out of the
  value of a \<^verbatim>\<open>std::optional\<close> leaves the optional engaged, holding the moved-from
  object; \<open>moved_from\<close> says what a moved-from value of the result type is.
\<close>

definition getValue ::
  "('v \<Rightarrow> 'v) \<Rightarrow> ('v, 'w) TaskNode \<Rightarrow> error + ('v \<times> ('v, 'w) TaskNode)" where
  "getValue moved_from n =
     (case mResult n of
        None \<Rightarrow> Inl (LogicError ''node has no result.'')
      | Some v \<Rightarrow>
          if \<not> ReturnType_copyable n then Inr (v, n\<lparr>mResult := Some (moved_from v)\<rparr>)
          else Inr (v, n))"

text \<open>
  The first part of \<^verbatim>\<open>execute\<close>: the callable is invoked, the result is stored and handed
  to the result consumers \<^verbatim>\<open>mDescendantTasks\<close>. It returns the node and the world, or the
  exception thrown before anything has changed.
\<close>

definition invoke_task ::
  "('v, 'w) TaskNode \<Rightarrow> 'w \<Rightarrow> error + (('v, 'w) TaskNode \<times> 'w)" where
  "invoke_task n w =
     (case mTask n of
        VoidTask f \<Rightarrow> Inr (n, f w)
      | ValueTask f \<Rightarrow>
          if \<not> ReturnType_copyable n then
            if length (mDescendantTasks n) > 1 then
              Inl (LogicError ''cant have more than 1 descendant process for  anon-copyable object'')
            else
              (case f w of (v, w1) \<Rightarrow>
                 let n1 = n\<lparr>mResult := Some v\<rparr> in
                 if mDescendantTasks n \<noteq> [] then
                   Inr (n1\<lparr>mResult := None\<rparr>, (mDescendantTasks n ! 0) v w1)
                 else Inr (n1, w1))
          else
            (case f w of (v, w1) \<Rightarrow>
               Inr (n\<lparr>mResult := Some v\<rparr>, fold (\<lambda>consumer. consumer v) (mDescendantTasks n) w1)))"

subsection \<open>TaskGraph.h: the graph\<close>

text \<open>
  \<^verbatim>\<open>class TaskGraph\<close>. Of the pool \<^verbatim>\<open>mPool\<close> the graph keeps the task queue; every thunk
  that the graph pushes is \<^verbatim>\<open>std::bind(&BaseTaskNode::execute, node)\<close>, stored as the handle
  of the node. The threads of the pool belong to the run state below. The mutex and the
  condition variable guard \<^verbatim>\<open>mCompletedTasks\<close> and have no state of their own here.
\<close>

record ('v, 'w) TaskGraph =
  mPool :: "nat Queue"
  mNodes :: "('v, 'w) TaskNode list"
  mCompletedTasks :: "64 word"

definition TaskGraph_new :: "('v, 'w) TaskGraph" where
  "TaskGraph_new = \<lparr>mPool = Queue_new, mNodes = [], mCompletedTasks = 0\<rparr>"

text \<open>
  \<^verbatim>\<open>makeTaskNode\<close> (all three overloads): \<^verbatim>\<open>mNodes.emplace_back(...)\<close> and the handle of the
  new node.
\<close>

definition makeTaskNode ::
  "('v, 'w) TaskGraph \<Rightarrow> ('v, 'w) TaskCallback \<Rightarrow> nat \<Rightarrow> bool \<Rightarrow> string
     \<Rightarrow> nat \<times> ('v, 'w) TaskGraph" where
  "makeTaskNode g xi_task arity copyable xi_name =
     (length (mNodes g), g\<lparr>mNodes := mNodes g @ [TaskNode_new xi_task arity copyable xi_name]\<rparr>)"

text \<open>
  \<^verbatim>\<open>this->setParent(xi_parent)\<close>: \<^verbatim>\<open>updateParentCount(); xi_parent.addChild(cb);
  xi_parent.mDescendants.emplace_back(this);\<close> The three writes are done one after the
  other, so that a node that is made its own parent gets all of them. Handles come from
  \<^verbatim>\<open>makeTaskNode\<close>; for a handle that is not a node of the graph nothing is done.
\<close>

definition setParent :: "('v, 'w) TaskGraph \<Rightarrow> nat \<Rightarrow> nat \<Rightarrow> ('v, 'w) TaskGraph" where
  "setParent g this xi_parent =
     (if this < length (mNodes g) \<and> xi_parent < length (mNodes g) then
        let ns1 = (mNodes g)[this := updateParentCount (mNodes g ! this)];
            ns2 = ns1[xi_parent := addChild (ns1 ! xi_parent) this];
            ns3 = ns2[xi_parent := (ns2 ! xi_parent)\<lparr>mDescendants := mDescendants (ns2 ! xi_parent) @ [this]\<rparr>]
        in g\<lparr>mNodes := ns3\<rparr>
      else g)"

text \<open>\<^verbatim>\<open>reset\<close>: \<^verbatim>\<open>for (auto& node : mNodes) node->reset(); mCompletedTasks = 0;\<close>\<close>

definition reset :: "('v, 'w) TaskGraph \<Rightarrow> ('v, 'w) TaskGraph" where
  "reset g = g\<lparr>mNodes := map TaskNode_reset (mNodes g), mCompletedTasks := 0\<rparr>"

text \<open>\<^verbatim>\<open>executeSingleNode\<close>: \<^verbatim>\<open>mPool.push(std::bind(&NodeType::execute, xi_node));\<close>\<close>

definition executeSingleNode :: "('v, 'w) TaskGraph \<Rightarrow> nat \<Rightarrow> ('v, 'w) TaskGraph" where
  "executeSingleNode g xi_node = g\<lparr>mPool := snd (push (mPool g) xi_node)\<rparr>"

text \<open>\<^verbatim>\<open>onSingleNodeCompleted\<close>: \<^verbatim>\<open>++mCompletedTasks;\<close> under the lock.\<close>

definition onSingleNodeCompleted :: "('v, 'w) TaskGraph \<Rightarrow> ('v, 'w) TaskGraph" where
  "onSingleNodeCompleted g = g\<lparr>mCompletedTasks := mCompletedTasks g + 1\<rparr>"

text \<open>
  \<^verbatim>\<open>this->onArgumentReady()\<close>: \<^verbatim>\<open>if (--mPendingCount == 0) mGraph->executeSingleNode(this);\<close>
  The decrement is one atomic operation and wraps around at zero; the push that follows
  a decrement to zero is a second operation.
\<close>

definition decrementPending :: "('v, 'w) TaskGraph \<Rightarrow> nat \<Rightarrow> ('v, 'w) TaskGraph" where
  "decrementPending g this =
     g\<lparr>mNodes := (mNodes g)[this := (mNodes g ! this)\<lparr>mPendingCount := mPendingCount (mNodes g ! this) - 1\<rparr>]\<rparr>"

definition onArgumentReady :: "('v, 'w) TaskGraph \<Rightarrow> nat \<Rightarrow> ('v, 'w) TaskGraph" where
  "onArgumentReady g this =
     (let g1 = decrementPending g this
      in if mPendingCount (mNodes g1 ! this) = 0 then executeSingleNode g1 this else g1)"


subsection \<open>TaskGraph.h: cycle detection\<close>

text \<open>
  The edges that \<^verbatim>\<open>hasCycle\<close> follows: \<^verbatim>\<open>currentNode->mDescendants\<close>. A handle that is not a
  node of the graph has no descendants.
\<close>

definition descendantsOf :: "('v, 'w) TaskGraph \<Rightarrow> nat \<Rightarrow> nat list" where
  "descendantsOf g n = (if n < length (mNodes g) then mDescendants (mNodes g ! n) else [])"

text \<open>
  The lambda \<^verbatim>\<open>DFS\<close> of \<^verbatim>\<open>hasCycle\<close> and its \<^verbatim>\<open>for\<close> loop over the descendants. The map
  \<^verbatim>\<open>col\<close> is captured by reference, so it is passed in and returned: a node is absent
  (not visited), \<open>True\<close> (on the current path) or \<open>False\<close> (done). \<open>DFS\<close> sets
  \<^verbatim>\<open>col[currentNode] = true\<close> and runs the loop; the loop returns true at the first
  descendant that is on the current path or whose own traversal returns true, and after
  the last descendant sets \<^verbatim>\<open>col[currentNode] = false\<close> and returns false.
\<close>

function DFS :: "('v, 'w) TaskGraph \<Rightarrow> (nat \<rightharpoonup> bool) \<Rightarrow> nat \<Rightarrow> bool \<times> (nat \<rightharpoonup> bool)"
  and DFS_loop :: "('v, 'w) TaskGraph \<Rightarrow> (nat \<rightharpoonup> bool) \<Rightarrow> nat \<Rightarrow> nat list \<Rightarrow> bool \<times> (nat \<rightharpoonup> bool)"
where
  "DFS g col currentNode = DFS_loop g (col(currentNode \<mapsto> True)) currentNode (descendantsOf g currentNode)"
| "DFS_loop g col currentNode [] = (False, col(currentNode \<mapsto> False))"
| "DFS_loop g col currentNode (nextNode # rest) =
     (case col nextNode of
        None \<Rightarrow>
          (case DFS g col nextNode of
             (True, col') \<Rightarrow> (True, col')
           | (False, col') \<Rightarrow> DFS_loop g col' currentNode rest)
      | Some True \<Rightarrow> (True, col)
      | Some False \<Rightarrow> DFS_loop g col currentNode rest)"
  by pat_completeness auto

text \<open>
  Termination: every nested call marks a node that was not marked before, and only the
  finitely many handles that occur in some \<^verbatim>\<open>mDescendants\<close> can be reached.
\<close>

definition all_descendants :: "('v, 'w) TaskGraph \<Rightarrow> nat set" where
  "all_descendants g = (\<Union>n \<in> set (mNodes g). set (mDescendants n))"

lemma finite_all_descendants: "finite (all_descendants g)"
  by (simp add: all_descendants_def)

lemma descendantsOf_subset: "set (descendantsOf g n) \<subseteq> all_descendants g"
  by (auto simp: descendantsOf_def all_descendants_def intro!: bexI [of _ "mNodes g ! n"])

lemma DFS_dom_mono:
  "DFS_DFS_loop_dom (Inl (g, col, cur)) \<Longrightarrow> dom col \<subseteq> dom (snd (DFS g col cur))"
  "DFS_DFS_loop_dom (Inr (g, col, cur, ns)) \<Longrightarrow> dom col \<subseteq> dom (snd (DFS_loop g col cur ns))"
proof (induction g col cur and g col cur ns rule: DFS_DFS_loop.pinduct)
  case (1 g col currentNode)
  have a: "dom col \<subseteq> dom (col(currentNode \<mapsto> True))" by auto
  from a "1.IH" show ?case unfolding DFS.psimps [OF "1.hyps"] by (rule order_trans)
next
  case (2 g col currentNode)
  then show ?case by (auto simp: DFS_loop.psimps)
next
  case (3 g col currentNode nextNode rest)
  show ?case
  proof (cases "col nextNode")
    case None
    obtain b col' where r: "DFS g col nextNode = (b, col')" by (cases "DFS g col nextNode")
    from "3.IH"(1) [OF None] r have m: "dom col \<subseteq> dom col'" by simp
    show ?thesis
    proof (cases b)
      case True
      with None r m "3.hyps" show ?thesis by (simp add: DFS_loop.psimps)
    next
      case False
      from "3.IH"(2) [OF None r [symmetric]] False
      have "dom col' \<subseteq> dom (snd (DFS_loop g col' currentNode rest))" by simp
      with None r m False "3.hyps" show ?thesis by (simp add: DFS_loop.psimps)
    qed
  next
    case (Some c)
    with 3 show ?thesis by (cases c) (simp_all add: DFS_loop.psimps)
  qed
qed


termination DFS
proof (relation "inv_image (finite_psubset <*lex*> less_than)
         (\<lambda>x. case x of
             Inl (g, col, cur) \<Rightarrow> (all_descendants g - (dom col \<union> {cur}), Suc (length (descendantsOf g cur)))
           | Inr (g, col, cur, ns) \<Rightarrow> ((all_descendants g \<union> set ns) - dom col, length ns))", goal_cases)
  case 1
  then show ?case by (intro wf_inv_image wf_lex_prod wf_finite_psubset wf_less_than)
next
  case (2 g col currentNode)
  have "all_descendants g \<union> set (descendantsOf g currentNode) = all_descendants g"
    using descendantsOf_subset [of g currentNode] by auto
  then have "all_descendants g \<union> set (descendantsOf g currentNode) - dom (col(currentNode \<mapsto> True))
     = all_descendants g - (dom col \<union> {currentNode})" by auto
  then show ?case by (simp only: in_inv_image in_lex_prod sum.case prod.case less_than_iff) simp
next
  case (3 g col currentNode nextNode rest)
  then have n: "nextNode \<notin> dom col" by (simp add: dom_def)
  have "all_descendants g - (dom col \<union> {nextNode}) \<subseteq> (all_descendants g \<union> set (nextNode # rest)) - dom col"
    by auto
  moreover have "nextNode \<in> (all_descendants g \<union> set (nextNode # rest)) - dom col"
    using n by simp
  moreover have "nextNode \<notin> all_descendants g - (dom col \<union> {nextNode})" by simp
  ultimately have "all_descendants g - (dom col \<union> {nextNode}) \<subset> (all_descendants g \<union> set (nextNode # rest)) - dom col"
    by blast
  moreover have "finite ((all_descendants g \<union> set (nextNode # rest)) - dom col)"
    by (simp add: finite_all_descendants)
  ultimately show ?case 
    by (simp only: in_inv_image in_lex_prod sum.case prod.case finite_psubset_def mem_Collect_eq) simp
next
  case (4 g col currentNode nextNode rest x y)
  from 4(2) [symmetric] have "snd (DFS g col nextNode) = y" by simp
  with DFS_dom_mono(1) [OF 4(4)] have "dom col \<subseteq> dom y" by simp
  then have s: "(all_descendants g \<union> set rest) - dom y \<subseteq> (all_descendants g \<union> set (nextNode # rest)) - dom col"
    by auto
  have f: "finite ((all_descendants g \<union> set (nextNode # rest)) - dom col)"
    by (simp add: finite_all_descendants)
  show ?case
  proof (cases "(all_descendants g \<union> set rest) - dom y = (all_descendants g \<union> set (nextNode # rest)) - dom col")
    case True
    then show ?thesis
      by (simp only: in_inv_image in_lex_prod sum.case prod.case less_than_iff) simp
  next
    case False
    with s have "(all_descendants g \<union> set rest) - dom y \<subset> (all_descendants g \<union> set (nextNode # rest)) - dom col"
      by (rule psubsetI)
    with f show ?thesis
      by (simp only: in_inv_image in_lex_prod sum.case prod.case finite_psubset_def mem_Collect_eq) simp
  qed
next
  case (5 g col currentNode nextNode rest)
  have s: "(all_descendants g \<union> set rest) - dom col \<subseteq> (all_descendants g \<union> set (nextNode # rest)) - dom col"
    by auto
  have f: "finite ((all_descendants g \<union> set (nextNode # rest)) - dom col)"
    by (simp add: finite_all_descendants)
  show ?case
  proof (cases "(all_descendants g \<union> set rest) - dom col = (all_descendants g \<union> set (nextNode # rest)) - dom col")
    case True
    then show ?thesis
      by (simp only: in_inv_image in_lex_prod sum.case prod.case less_than_iff) simp
  next
    case False
    with s have "(all_descendants g \<union> set rest) - dom col \<subset> (all_descendants g \<union> set (nextNode # rest)) - dom col"
      by (rule psubsetI)
    with f show ?thesis
      by (simp only: in_inv_image in_lex_prod sum.case prod.case finite_psubset_def mem_Collect_eq) simp
  qed
qed


declare DFS.simps [simp del]

text \<open>
  \<^verbatim>\<open>hasCycle\<close>: \<^verbatim>\<open>for (auto& node : mNodes) { col.clear(); if (DFS(node.get())) return true; }
  return false;\<close>
\<close>

fun hasCycle_loop :: "('v, 'w) TaskGraph \<Rightarrow> nat list \<Rightarrow> bool" where
  "hasCycle_loop g [] = False"
| "hasCycle_loop g (node # rest) = (if fst (DFS g Map.empty node) then True else hasCycle_loop g rest)"

definition hasCycle :: "('v, 'w) TaskGraph \<Rightarrow> bool" where
  "hasCycle g = hasCycle_loop g [0..<length (mNodes g)]"

text \<open>
  The directed graph of the descendant edges, and what it means that a cycle can be reached
  from a node.
\<close>

definition descendant_edges :: "('v, 'w) TaskGraph \<Rightarrow> (nat \<times> nat) set" where
  "descendant_edges g = {(u, v). v \<in> set (descendantsOf g u)}"

definition reaches_cycle :: "('v, 'w) TaskGraph \<Rightarrow> nat \<Rightarrow> bool" where
  "reaches_cycle g u = (\<exists>v. (u, v) \<in> (descendant_edges g)\<^sup>* \<and> (v, v) \<in> (descendant_edges g)\<^sup>+)"

text \<open>The invariants of the traversal, used in the proof of its correctness.\<close>

definition black_ok :: "('v, 'w) TaskGraph \<Rightarrow> (nat \<rightharpoonup> bool) \<Rightarrow> bool" where
  "black_ok g col = (\<forall>u. col u = Some False \<longrightarrow> \<not> reaches_cycle g u)"

definition grey_reach :: "('v, 'w) TaskGraph \<Rightarrow> (nat \<rightharpoonup> bool) \<Rightarrow> nat \<Rightarrow> bool" where
  "grey_reach g col cur = (\<forall>u. col u = Some True \<longrightarrow> (u, cur) \<in> (descendant_edges g)\<^sup>*)"

definition DFS_post ::
  "('v, 'w) TaskGraph \<Rightarrow> (nat \<rightharpoonup> bool) \<Rightarrow> nat \<Rightarrow> bool \<times> (nat \<rightharpoonup> bool) \<Rightarrow> bool" where
  "DFS_post g col cur r =
     (if fst r then reaches_cycle g cur
      else black_ok g (snd r)
           \<and> (\<forall>u. snd r u = Some True \<longleftrightarrow> col u = Some True \<and> u \<noteq> cur)
           \<and> snd r cur = Some False
           \<and> (\<forall>u. col u = Some False \<longrightarrow> snd r u = Some False))"

subsection \<open>ThreadPool.h and TaskGraph::execute: running a graph\<close>

text \<open>
  A run of \<^verbatim>\<open>TaskGraph::execute\<close> is an interleaving of atomic steps of the calling thread
  and of the threads of the pool. What a thread of the pool is doing:
  \<^item> \<open>Idle\<close>: it is about to pop a thunk (or waits for one);
  \<^item> \<open>Executing n\<close>: it has popped the thunk of node \<open>n\<close> and is about to call
    \<^verbatim>\<open>n->execute()\<close>;
  \<^item> \<open>Notifying n cs\<close>: inside \<^verbatim>\<open>n->execute()\<close>, the callable has run and the callbacks \<open>cs\<close>
    of the loop \<^verbatim>\<open>for (auto childTask : mDescendantArguments)\<close> are still to be called;
  \<^item> \<open>Submitting n c cs\<close>: inside the callback of the child \<open>c\<close>, the decrement has returned
    zero and \<^verbatim>\<open>executeSingleNode(c)\<close> is about to push \<open>c\<close>.
\<close>

datatype worker = Idle | Executing nat | Notifying nat "nat list" | Submitting nat nat "nat list"

text \<open>
  The state of a run: the graph, the world of the callables, the local \<^verbatim>\<open>initialNodes\<close> of
  \<^verbatim>\<open>execute\<close> (what is left to push), the threads of the pool, and a history that the code
  does not keep: the nodes pushed to the pool (\<open>submitted\<close>), the nodes whose decrement
  returned zero (\<open>triggered\<close>), the nodes whose callable has run (\<open>started\<close>) or has thrown
  (\<open>failed\<close>), the nodes that have reported completion (\<open>finished\<close>), and whether a
  counter has ever been decremented at zero (\<open>underflow\<close>).
\<close>

record ('v, 'w) run_state =
  graph :: "('v, 'w) TaskGraph"
  world :: 'w
  initialNodes :: "nat list"
  threads :: "worker list"
  submitted :: "nat list"
  triggered :: "nat list"
  started :: "nat list"
  failed :: "nat list"
  finished :: "nat list"
  underflow :: bool

text \<open>
  The first loop of \<^verbatim>\<open>execute\<close>: \<^verbatim>\<open>if (!nodePtr->getPendingCount()) initialNodes.push_back(...)\<close>,
  on a pool of \<open>xi_count\<close> threads (the argument of the constructor of the graph), all of
  them idle.
\<close>

definition execute_begin :: "('v, 'w) TaskGraph \<Rightarrow> 'w \<Rightarrow> nat \<Rightarrow> ('v, 'w) run_state" where
  "execute_begin g w xi_count =
     \<lparr>graph = g, world = w,
      initialNodes = filter (\<lambda>i. getPendingCount (mNodes g ! i) = 0) [0..<length (mNodes g)],
      threads = replicate xi_count Idle,
      submitted = [], triggered = [], started = [], failed = [], finished = [],
      underflow = False\<rparr>"

text \<open>
  A step of the calling thread, in the second loop of \<^verbatim>\<open>execute\<close>:
  \<^verbatim>\<open>mPool.push(std::bind(&BaseTaskNode::execute, initialNode))\<close>.
\<close>

definition main_push :: "('v, 'w) run_state \<Rightarrow> ('v, 'w) run_state option" where
  "main_push s =
     (case initialNodes s of
        [] \<Rightarrow> None
      | initialNode # rest \<Rightarrow>
          Some (s\<lparr>graph := executeSingleNode (graph s) initialNode,
                 initialNodes := rest,
                 submitted := submitted s @ [initialNode]\<rparr>))"

text \<open>
  A step of thread \<open>k\<close> of the pool (the loop of \<^verbatim>\<open>ThreadPool::set_thread\<close> around
  \<^verbatim>\<open>TaskNode::execute\<close>). An exception of \<^verbatim>\<open>execute\<close> is caught by the
  \<^verbatim>\<open>std::packaged_task\<close> of the thunk, and the thread goes on with the next thunk. A handle
  that is not a node of the graph cannot be followed.
\<close>

definition worker_step :: "('v, 'w) run_state \<Rightarrow> nat \<Rightarrow> ('v, 'w) run_state option" where
  "worker_step s k =
     (case threads s ! k of
        Idle \<Rightarrow>
          (case pop (mPool (graph s)) 0 of
             (False, task, q) \<Rightarrow> None
           | (True, task, q) \<Rightarrow>
               Some (s\<lparr>graph := (graph s)\<lparr>mPool := q\<rparr>, threads := (threads s)[k := Executing task]\<rparr>))
      | Executing n \<Rightarrow>
          if n < length (mNodes (graph s)) then
            (case invoke_task (mNodes (graph s) ! n) (world s) of
               Inl e \<Rightarrow> Some (s\<lparr>threads := (threads s)[k := Idle], failed := failed s @ [n]\<rparr>)
             | Inr (n', w') \<Rightarrow>
                 Some (s\<lparr>graph := (graph s)\<lparr>mNodes := (mNodes (graph s))[n := n']\<rparr>,
                        world := w',
                        threads := (threads s)[k := Notifying n (mDescendantArguments n')],
                        started := started s @ [n]\<rparr>))
          else None
      | Notifying n [] \<Rightarrow>
          Some (s\<lparr>graph := onSingleNodeCompleted (graph s),
                 threads := (threads s)[k := Idle],
                 finished := finished s @ [n]\<rparr>)
      | Notifying n (c # cs) \<Rightarrow>
          if c < length (mNodes (graph s)) then
            let before = mPendingCount (mNodes (graph s) ! c);
                g1 = decrementPending (graph s) c;
                zero = (mPendingCount (mNodes g1 ! c) = 0)
            in Some (s\<lparr>graph := g1,
                      threads := (threads s)[k := if zero then Submitting n c cs else Notifying n cs],
                      triggered := (if zero then triggered s @ [c] else triggered s),
                      underflow := (underflow s \<or> before = 0)\<rparr>)
          else None
      | Submitting n c cs \<Rightarrow>
          Some (s\<lparr>graph := executeSingleNode (graph s) c,
                 threads := (threads s)[k := Notifying n cs],
                 submitted := submitted s @ [c]\<rparr>))"

text \<open>One step of the run, by the calling thread or by a thread of the pool.\<close>

definition step :: "('v, 'w) run_state \<Rightarrow> ('v, 'w) run_state \<Rightarrow> bool" where
  "step s s' = (main_push s = Some s' \<or> (\<exists>k < length (threads s). worker_step s k = Some s'))"

text \<open>The states that a run from \<open>s\<close> can be in.\<close>

definition reachable :: "('v, 'w) run_state \<Rightarrow> ('v, 'w) run_state \<Rightarrow> bool" where
  "reachable s s' = (step\<^sup>*\<^sup>* s s')"

text \<open>
  The condition that \<^verbatim>\<open>execute\<close> waits for after its pushes:
  \<^verbatim>\<open>mCompletedTasks == mNodes.size()\<close>.
\<close>

definition execute_returns :: "('v, 'w) run_state \<Rightarrow> bool" where
  "execute_returns s =
     (initialNodes s = [] \<and> mCompletedTasks (graph s) = of_nat (length (mNodes (graph s))))"

text \<open>
  A graph that is ready for a run, as it is after its construction by \<^verbatim>\<open>makeTaskNode\<close> and
  \<^verbatim>\<open>setParent\<close> and after \<^verbatim>\<open>reset\<close>: the pending counter of every node is the number of
  arguments of its callable plus the number of completion callbacks registered for it
  (one for every \<^verbatim>\<open>setParent\<close>), every callback belongs to a node of the graph, no thunk is
  queued and no node is counted as completed.
\<close>

definition registrations :: "('v, 'w) TaskGraph \<Rightarrow> nat \<Rightarrow> nat" where
  "registrations g c =
     (\<Sum>p \<leftarrow> [0..<length (mNodes g)]. count_list (mDescendantArguments (mNodes g ! p)) c)"

definition armed :: "('v, 'w) TaskGraph \<Rightarrow> bool" where
  "armed g =
     ((\<forall>c < length (mNodes g).
         unat (mPendingCount (mNodes g ! c)) = Args_size (mNodes g ! c) + registrations g c)
      \<and> (\<forall>p < length (mNodes g). \<forall>c \<in> set (mDescendantArguments (mNodes g ! p)). c < length (mNodes g))
      \<and> mQueue (mPool g) = []
      \<and> mCompletedTasks g = 0)"

text \<open>The callbacks that a thread has still to call in the node it is executing.\<close>

fun remaining :: "worker \<Rightarrow> nat list" where
  "remaining (Notifying n cs) = cs"
| "remaining (Submitting n c cs) = cs"
| "remaining _ = []"

subsection \<open>Runs without a choice\<close>

text \<open>
  All the states that one step can lead to, and a run that follows the only possible step
  for at most \<open>n\<close> steps: it returns the state in which no step is possible, and nothing
  when some state has more than one successor or more than \<open>n\<close> steps are needed.
\<close>

definition successors :: "('v, 'w) run_state \<Rightarrow> ('v, 'w) run_state list" where
  "successors s =
     (case main_push s of None \<Rightarrow> [] | Some s' \<Rightarrow> [s'])
     @ List.map_filter (worker_step s) [0..<length (threads s)]"

fun drive :: "nat \<Rightarrow> ('v, 'w) run_state \<Rightarrow> ('v, 'w) run_state option" where
  "drive 0 s = (case successors s of [] \<Rightarrow> Some s | _ \<Rightarrow> None)"
| "drive (Suc n) s = (case successors s of [] \<Rightarrow> Some s | [s'] \<Rightarrow> drive n s' | _ \<Rightarrow> None)"

subsection \<open>The invariant of a run\<close>

text \<open>
  Counting over the threads: the nodes that have been popped and not yet executed, the
  nodes that are calling their callbacks, the nodes that are about to be pushed, and the
  callbacks that are still to be called.
\<close>

fun exec_of :: "worker \<Rightarrow> nat multiset" where
  "exec_of (Executing n) = {#n#}"
| "exec_of _ = {#}"

fun noti_of :: "worker \<Rightarrow> nat multiset" where
  "noti_of (Notifying n cs) = {#n#}"
| "noti_of (Submitting n c cs) = {#n#}"
| "noti_of _ = {#}"

fun subm_of :: "worker \<Rightarrow> nat multiset" where
  "subm_of (Submitting n c cs) = {#c#}"
| "subm_of _ = {#}"

fun out_of :: "worker \<Rightarrow> nat multiset" where
  "out_of (Notifying n cs) = mset cs"
| "out_of (Submitting n c cs) = mset cs"
| "out_of _ = {#}"

text \<open>
  The callbacks of the nodes whose callable has not run yet, all callbacks that are still
  owed to the pending counters, and the nodes that have been handed to the pool or are
  about to be.
\<close>

definition unstarted :: "('v, 'w) TaskGraph \<Rightarrow> nat list \<Rightarrow> nat multiset" where
  "unstarted g0 st =
     (\<Sum>p \<leftarrow> [0..<length (mNodes g0)].
        if p \<in> set st then {#} else mset (mDescendantArguments (mNodes g0 ! p)))"

definition owed :: "('v, 'w) TaskGraph \<Rightarrow> ('v, 'w) run_state \<Rightarrow> nat multiset" where
  "owed g0 s = (\<Sum>t \<leftarrow> threads s. out_of t) + unstarted g0 (started s)"

definition claimed :: "('v, 'w) run_state \<Rightarrow> nat multiset" where
  "claimed s = mset (submitted s) + mset (initialNodes s) + (\<Sum>t \<leftarrow> threads s. subm_of t)"

text \<open>
  The invariant, for a run that started from the graph \<open>g0\<close>: the callbacks and arguments
  of the nodes are those of \<open>g0\<close>; every pending counter is the number of arguments plus
  the callbacks still owed to it; every node handed to the pool has its counter at zero,
  and these nodes are the initial ones and the triggered ones, each once; every submitted
  node is queued, popped, started or failed; every started node is calling its callbacks
  or finished; \<^verbatim>\<open>mCompletedTasks\<close> counts the finished nodes; no counter was decremented at
  zero.
\<close>

definition run_inv :: "('v, 'w) TaskGraph \<Rightarrow> ('v, 'w) run_state \<Rightarrow> bool" where
  "run_inv g0 s =
     (length (mNodes (graph s)) = length (mNodes g0)
      \<and> (\<forall>i < length (mNodes g0).
            mDescendantArguments (mNodes (graph s) ! i) = mDescendantArguments (mNodes g0 ! i)
            \<and> Args_size (mNodes (graph s) ! i) = Args_size (mNodes g0 ! i))
      \<and> (\<forall>c < length (mNodes g0).
            unat (mPendingCount (mNodes (graph s) ! c)) = Args_size (mNodes g0 ! c) + count (owed g0 s) c)
      \<and> (\<forall>c. c \<in># claimed s \<longrightarrow> c < length (mNodes g0) \<and> mPendingCount (mNodes (graph s) ! c) = 0)
      \<and> claimed s = mset (triggered s) + mset (initialNodes (execute_begin g0 (world s) 0))
      \<and> (\<forall>c. count (claimed s) c \<le> 1)
      \<and> mset (submitted s)
          = mset (mQueue (mPool (graph s))) + (\<Sum>t \<leftarrow> threads s. exec_of t)
            + mset (started s) + mset (failed s)
      \<and> mset (started s) = (\<Sum>t \<leftarrow> threads s. noti_of t) + mset (finished s)
      \<and> (\<forall>n \<in> set (started s). n < length (mNodes g0))
      \<and> mCompletedTasks (graph s) = of_nat (length (finished s))
      \<and> \<not> underflow s)"

text \<open>A node that takes an argument, behind a node that takes none.\<close>

definition argument_example :: "(unit, unit) TaskGraph" where
  "argument_example =
     (case makeTaskNode TaskGraph_new (VoidTask (\<lambda>w. w)) 0 False [] of (a, g1) \<Rightarrow>
      case makeTaskNode g1 (VoidTask (\<lambda>w. w)) 1 False [] of (b, g2) \<Rightarrow>
        setParent g2 b a)"

subsection \<open>Tests.cpp: the graph of Test1\<close>

text \<open>
  The world of Test1 is the string \<^verbatim>\<open>out\<close>, captured by reference in the four lambdas.
  All four callables are \<^verbatim>\<open>std::function<void()>\<close>: no arguments, no result.
\<close>

definition Test1_graph :: "(unit, string) TaskGraph" where
  "Test1_graph =
     (case makeTaskNode TaskGraph_new (VoidTask (\<lambda>out. ''task1->'')) 0 False [] of (task1, g1) \<Rightarrow>
      case makeTaskNode g1 (VoidTask (\<lambda>out. out @ ''task2->'')) 0 False [] of (task2, g2) \<Rightarrow>
      case makeTaskNode g2 (VoidTask (\<lambda>out. out @ ''task3->'')) 0 False [] of (task3, g3) \<Rightarrow>
      case makeTaskNode g3 (VoidTask (\<lambda>out. out @ ''task4'')) 0 False [] of (task4, g4) \<Rightarrow>
        setParent (setParent (setParent (setParent (setParent g4
          task2 task1) task4 task1) task2 task3) task4 task3) task3 task1)"

text \<open>Two nodes that are each the parent of the other.\<close>

definition cyclic_example :: "(unit, unit) TaskGraph" where
  "cyclic_example =
     (case makeTaskNode TaskGraph_new (VoidTask (\<lambda>w. w)) 0 False [] of (a, g1) \<Rightarrow>
      case makeTaskNode g1 (VoidTask (\<lambda>w. w)) 0 False [] of (b, g2) \<Rightarrow>
        setParent (setParent g2 b a) a b)"

subsection \<open>Graphs built through the interface\<close>


text \<open>
  No node of the graph has a result consumer: \<^verbatim>\<open>mDescendantTasks\<close> is empty everywhere. The
  vector is read by \<^verbatim>\<open>TaskNode::execute\<close> and written by no function of the library.
\<close>

definition no_consumers :: "('v, 'w) TaskGraph \<Rightarrow> bool" where
  "no_consumers g = (\<forall>n \<in> set (mNodes g). mDescendantTasks n = [])"



subsection \<open>The order of a run\<close>

text \<open>
  What the callable of node \<open>n\<close> of the graph does to the world when \<^verbatim>\<open>execute\<close> invokes it
  (nothing when \<^verbatim>\<open>execute\<close> throws before the call).
\<close>

definition task_effect :: "('v, 'w) TaskGraph \<Rightarrow> nat \<Rightarrow> 'w \<Rightarrow> 'w" where
  "task_effect g n w = (case invoke_task (mNodes g ! n) w of Inl e \<Rightarrow> w | Inr (n', w') \<Rightarrow> w')"

text \<open>The node that a thread has popped and not yet executed.\<close>

fun popped :: "worker \<Rightarrow> nat list" where
  "popped (Executing n) = [n]"
| "popped _ = []"

text \<open>
  The invariant of the order, for a run of the graph \<open>g\<close> from the world \<open>w\<close>: no call of
  \<^verbatim>\<open>execute\<close> has thrown; the world is what the callables make of \<open>w\<close>, applied in the order
  in which they were invoked; every node was invoked after all the nodes that hold a
  callback for it; and the callbacks that a thread has still to call are a final part of
  the \<^verbatim>\<open>mDescendantArguments\<close> of its node, so that they are called in the order of their
  registration.
\<close>

definition order_inv :: "('v, 'w) TaskGraph \<Rightarrow> 'w \<Rightarrow> ('v, 'w) run_state \<Rightarrow> bool" where
  "order_inv g w s =
     (failed s = []
      \<and> world s = fold (task_effect g) (started s) w
      \<and> (\<forall>i < length (started s). \<forall>p < length (mNodes g).
            started s ! i \<in> set (mDescendantArguments (mNodes g ! p)) \<longrightarrow> p \<in> set (take i (started s)))
      \<and> (\<forall>t \<in> set (threads s).
            (\<forall>n cs. t = Notifying n cs \<longrightarrow> (\<exists>d. mDescendantArguments (mNodes g ! n) = d @ cs))
            \<and> (\<forall>n c cs. t = Submitting n c cs \<longrightarrow> (\<exists>d. mDescendantArguments (mNodes g ! n) = d @ c # cs))))"

text \<open>
  At most one initial node is left to push, and while it is, the only thread is idle and
  the queue is empty.
\<close>

definition one_at_a_time :: "('v, 'w) run_state \<Rightarrow> bool" where
  "one_at_a_time s =
     (length (initialNodes s) \<le> 1
      \<and> (initialNodes s \<noteq> [] \<longrightarrow> threads s = [Idle] \<and> mQueue (mPool (graph s)) = []))"


subsection \<open>Helper lemmas: Queue\<close>

lemma mQueue_push_all: "mQueue (push_all q xs) = mQueue q @ xs"
  by (induction xs arbitrary: q) (simp_all add: push_def)

lemma pop_n_exact:
  "mQueue q = xs @ rest \<Longrightarrow> pop_n (length xs) q xo = (xs, q\<lparr>mQueue := rest\<rparr>)"
proof (induction xs arbitrary: q xo)
  case Nil
  then show ?case by simp
next
  case (Cons x xs)
  have "mQueue (q\<lparr>mQueue := xs @ rest\<rparr>) = xs @ rest" by simp
  from Cons.IH [OF this] Cons.prems show ?case
    by (simp add: pop_def)
qed

subsection \<open>Claims: Queue\<close>

text \<open>
  C10. Under sequential use the queue is an unbounded FIFO: \<^verbatim>\<open>push\<close> returns true for every
  element and every queue state and appends the element at the back; \<^verbatim>\<open>pop\<close> returns false
  exactly when the queue is empty (then the queue and the out parameter are unchanged), and
  otherwise removes and returns the oldest element; so elements pushed in some order onto a
  queue are popped in exactly that order, after the elements that were already queued.
\<close>

theorem queue_fifo:
  "fst (push q x) = True
   \<and> mQueue (snd (push q x)) = mQueue q @ [x]
   \<and> (fst (pop q xo) = False \<longleftrightarrow> mQueue q = [])
   \<and> (mQueue q = [] \<longrightarrow> pop q xo = (False, xo, q))
   \<and> (\<forall>y ys. mQueue q = y # ys \<longrightarrow> pop q xo = (True, y, q\<lparr>mQueue := ys\<rparr>))
   \<and> pop_n (length (mQueue q) + length xs) (push_all q xs) xo = (mQueue q @ xs, q\<lparr>mQueue := []\<rparr>)
   \<and> fst (pop (snd (pop_n (length (mQueue q) + length xs) (push_all q xs) xo)) xo') = False"
proof -
  have m: "mQueue (push_all q xs) = (mQueue q @ xs) @ []"
    by (simp add: mQueue_push_all)
  have p: "pop_n (length (mQueue q @ xs)) (push_all q xs) xo = (mQueue q @ xs, (push_all q xs)\<lparr>mQueue := []\<rparr>)"
    by (rule pop_n_exact [OF m])
  have e: "(push_all q xs)\<lparr>mQueue := []\<rparr> = q\<lparr>mQueue := []\<rparr>"
    by (induction xs arbitrary: q) (simp_all add: push_def)
  from p e have l: "pop_n (length (mQueue q) + length xs) (push_all q xs) xo = (mQueue q @ xs, q\<lparr>mQueue := []\<rparr>)"
    by simp
  have f: "fst (pop (snd (pop_n (length (mQueue q) + length xs) (push_all q xs) xo)) xo') = False"
    by (simp add: l pop_def)
  have g: "fst (pop q xo) = False \<longleftrightarrow> mQueue q = []"
    by (simp add: pop_def split: list.splits)
  from l f g show ?thesis
    by (simp add: push_def pop_def)
qed

theorem queue_fifo_witness:
  "pop_n (length [1, 2, 3 :: nat]) (push_all Queue_new [1, 2, 3 :: nat]) 0 = ([1, 2, 3], Queue_new)
   \<and> pop (Queue_new :: nat Queue) 7 = (False, 7, Queue_new)
   \<and> pop (snd (push Queue_new (5 :: nat))) 7 = (True, 5, Queue_new)"
  using queue_fifo [where q = "Queue_new :: nat Queue" and xo = 0 and xs = "[1, 2, 3]"]
        queue_fifo [where q = "Queue_new :: nat Queue" and xo = 7]
        queue_fifo [where q = "snd (push Queue_new (5 :: nat))" and xo = 7]
  by (simp add: Queue_new_def push_def)

subsection \<open>Helper lemmas: the graph of Test1\<close>

lemma setParent_explicit:
  "this < length ns \<Longrightarrow> xi_parent < length ns \<Longrightarrow>
   setParent \<lparr>mPool = q, mNodes = ns, mCompletedTasks = c\<rparr> this xi_parent =
     \<lparr>mPool = q,
      mNodes = (let ns1 = ns[this := updateParentCount (ns ! this)];
            ns2 = ns1[xi_parent := addChild (ns1 ! xi_parent) this] in
            ns2[xi_parent := (ns2 ! xi_parent)\<lparr>mDescendants := mDescendants (ns2 ! xi_parent) @ [this]\<rparr>]),
      mCompletedTasks = c\<rparr>"
  by (simp add: setParent_def Let_def)

lemma Test1_graph_eq:
  "Test1_graph =
    \<lparr>mPool = Queue_new, mNodes = 
     [\<lparr>mName = [], mDescendants = [1, 3, 2], mTask = VoidTask (\<lambda>out. ''task1->''), Args_size = 0,
       ReturnType_copyable = False, mResult = None, mPendingCount = 0, mParentCount = 0,
       mDescendantTasks = [], mDescendantArguments = [1, 3, 2]\<rparr>,
      \<lparr>mName = [], mDescendants = [], mTask = VoidTask (\<lambda>out. out @ ''task2->''), Args_size = 0,
       ReturnType_copyable = False, mResult = None, mPendingCount = 2, mParentCount = 2,
       mDescendantTasks = [], mDescendantArguments = []\<rparr>,
      \<lparr>mName = [], mDescendants = [1, 3], mTask = VoidTask (\<lambda>out. out @ ''task3->''), Args_size = 0,
       ReturnType_copyable = False, mResult = None, mPendingCount = 1, mParentCount = 1,
       mDescendantTasks = [], mDescendantArguments = [1, 3]\<rparr>,
      \<lparr>mName = [], mDescendants = [], mTask = VoidTask (\<lambda>out. out @ ''task4''), Args_size = 0,
       ReturnType_copyable = False, mResult = None, mPendingCount = 2, mParentCount = 2,
       mDescendantTasks = [], mDescendantArguments = []\<rparr>], mCompletedTasks = 0\<rparr>"
  unfolding Test1_graph_def makeTaskNode_def TaskGraph_new_def TaskNode_new_def
  apply (simp only: prod.case TaskGraph.simps list.size append.simps)
  apply (simp add: setParent_explicit updateParentCount_def addChild_def)
  done

lemma cyclic_example_eq:
  "cyclic_example =
     \<lparr>mPool = Queue_new, mNodes =
       [\<lparr>mName = [], mDescendants = [1], mTask = VoidTask (\<lambda>w. w), Args_size = 0,
         ReturnType_copyable = False, mResult = None, mPendingCount = 1, mParentCount = 1,
         mDescendantTasks = [], mDescendantArguments = [1]\<rparr>,
        \<lparr>mName = [], mDescendants = [0], mTask = VoidTask (\<lambda>w. w), Args_size = 0,
         ReturnType_copyable = False, mResult = None, mPendingCount = 1, mParentCount = 1,
         mDescendantTasks = [], mDescendantArguments = [0]\<rparr>], mCompletedTasks = 0\<rparr>"
  unfolding cyclic_example_def makeTaskNode_def TaskGraph_new_def TaskNode_new_def
  apply (simp only: prod.case TaskGraph.simps list.size append.simps)
  apply (simp add: setParent_explicit updateParentCount_def addChild_def)
  done

subsection \<open>Claims: results of a node\<close>


text \<open>
  What \<^verbatim>\<open>getValue\<close> does, for every node: it throws "node has no result." exactly when the
  result slot is empty, and otherwise returns the content of the slot; for a copyable
  result the node is unchanged, for a non-copyable result the slot keeps the moved-from
  object. The slot is empty on a new node, after \<^verbatim>\<open>reset\<close>, after \<^verbatim>\<open>execute\<close> of a callable
  that returns nothing and after \<^verbatim>\<open>execute\<close> has handed a non-copyable result to its
  consumer; after any other \<^verbatim>\<open>execute\<close> that did not throw, \<^verbatim>\<open>getValue\<close> returns the value
  that the callable returned.
\<close>

lemma getValue_slot:
  "(getValue mv n = Inl (LogicError ''node has no result.'') \<longleftrightarrow> mResult n = None)
   \<and> (\<forall>e. getValue mv n = Inl e \<longrightarrow> mResult n = None)
   \<and> (\<forall>v n'. getValue mv n = Inr (v, n') \<longrightarrow>
        mResult n = Some v
        \<and> n' = (if ReturnType_copyable n then n else n\<lparr>mResult := Some (mv v)\<rparr>))
   \<and> (\<forall>v. mResult n = Some v \<longrightarrow> (\<exists>n'. getValue mv n = Inr (v, n')))
   \<and> getValue mv (TaskNode_new xi_task arity copyable xi_name) = Inl (LogicError ''node has no result.'')
   \<and> getValue mv (TaskNode_reset n) = Inl (LogicError ''node has no result.'')
   \<and> (\<forall>f n' w'. mTask n = VoidTask f \<and> mResult n = None \<and> invoke_task n w = Inr (n', w') \<longrightarrow>
        getValue mv n' = Inl (LogicError ''node has no result.''))
   \<and> (\<forall>f n' w'. mTask n = ValueTask f \<and> \<not> ReturnType_copyable n \<and> mDescendantTasks n \<noteq> []
          \<and> invoke_task n w = Inr (n', w') \<longrightarrow>
        getValue mv n' = Inl (LogicError ''node has no result.''))
   \<and> (\<forall>f n' w'. mTask n = ValueTask f \<and> (ReturnType_copyable n \<or> mDescendantTasks n = [])
          \<and> invoke_task n w = Inr (n', w') \<longrightarrow>
        (\<exists>n''. getValue mv n' = Inr (fst (f w), n'')))"
  by (auto simp: getValue_def TaskNode_new_def TaskNode_reset_def invoke_task_def Let_def
           split: option.splits if_splits prod.splits)

text \<open>
  C6. The claim: \<^verbatim>\<open>getValue\<close> throws exactly when the result slot is empty, otherwise returns
  the stored result, moving it out when the result type is not copyable, and never returns
  a stale or default value. The code at a move-only result: the result type is
  \<^verbatim>\<open>std::unique_ptr<int>\<close>, here \<open>nat option\<close> with \<open>None\<close> the null pointer, the state that a
  moved-from \<^verbatim>\<open>unique_ptr\<close> is left in. The callable returns a pointer to 13 and no consumer
  is registered. After \<^verbatim>\<open>execute\<close>, the first \<^verbatim>\<open>getValue\<close> returns the pointer to 13 and
  leaves the slot engaged (unlike \<^verbatim>\<open>execute\<close>, which calls \<^verbatim>\<open>mResult.reset()\<close> after it has
  moved the value to a consumer); the second \<^verbatim>\<open>getValue\<close> does not throw and returns the
  null pointer.
\<close>

theorem getValue_twice_moved_from:
  "(case invoke_task (TaskNode_new (ValueTask (\<lambda>w :: unit. (Some (13 :: nat), w))) 0 False []) () of
      Inl e \<Rightarrow> False
    | Inr (n1, w1) \<Rightarrow>
        (case getValue (\<lambda>p. None) n1 of
           Inl e \<Rightarrow> False
         | Inr (v1, n2) \<Rightarrow>
             v1 = Some 13 \<and> mResult n2 = Some None
             \<and> (\<exists>n3. getValue (\<lambda>p. None) n2 = Inr (None, n3))))"
  by (simp add: invoke_task_def TaskNode_new_def getValue_def)

subsection \<open>Claims: reset\<close>

text \<open>
  C7. After \<^verbatim>\<open>reset\<close> of the graph, the pending counter of every node equals its parent
  count, the result slot of every node is empty and \<^verbatim>\<open>mCompletedTasks\<close> is zero; the number
  of nodes, the parent counts, names, callables, descendant edges, result consumers and
  completion callbacks of the nodes and the task queue of the pool are as before.
\<close>

theorem reset_restores:
  "mCompletedTasks (reset g) = 0
   \<and> mPool (reset g) = mPool g
   \<and> length (mNodes (reset g)) = length (mNodes g)
   \<and> (\<forall>i < length (mNodes g).
        mPendingCount (mNodes (reset g) ! i) = mParentCount (mNodes (reset g) ! i)
        \<and> mResult (mNodes (reset g) ! i) = None
        \<and> mParentCount (mNodes (reset g) ! i) = mParentCount (mNodes g ! i)
        \<and> mName (mNodes (reset g) ! i) = mName (mNodes g ! i)
        \<and> mTask (mNodes (reset g) ! i) = mTask (mNodes g ! i)
        \<and> Args_size (mNodes (reset g) ! i) = Args_size (mNodes g ! i)
        \<and> ReturnType_copyable (mNodes (reset g) ! i) = ReturnType_copyable (mNodes g ! i)
        \<and> mDescendants (mNodes (reset g) ! i) = mDescendants (mNodes g ! i)
        \<and> mDescendantTasks (mNodes (reset g) ! i) = mDescendantTasks (mNodes g ! i)
        \<and> mDescendantArguments (mNodes (reset g) ! i) = mDescendantArguments (mNodes g ! i))"
  by (simp add: reset_def TaskNode_reset_def)

theorem reset_restores_witness:
  "mCompletedTasks (reset (onSingleNodeCompleted (onArgumentReady Test1_graph 2))) = 0
   \<and> mPool (reset (onSingleNodeCompleted (onArgumentReady Test1_graph 2))) = \<lparr>mQueue = [2]\<rparr>
   \<and> mPendingCount (mNodes (onSingleNodeCompleted (onArgumentReady Test1_graph 2)) ! 2) = 0
   \<and> mPendingCount (mNodes (reset (onSingleNodeCompleted (onArgumentReady Test1_graph 2))) ! 2) = 1
   \<and> mDescendants (mNodes (reset (onSingleNodeCompleted (onArgumentReady Test1_graph 2))) ! 2) = [1, 3]"
  using reset_restores [of "onSingleNodeCompleted (onArgumentReady Test1_graph 2)"]
  by (simp add: onSingleNodeCompleted_def onArgumentReady_def decrementPending_def executeSingleNode_def push_def
      Test1_graph_eq Queue_new_def Let_def)

text \<open>
  C8. \<^verbatim>\<open>reset\<close> of the graph is idempotent: two calls in a row leave exactly the state that
  one call leaves.
\<close>

theorem reset_idempotent: "reset (reset g) = reset g"
  by (simp add: reset_def TaskNode_reset_def)

subsection \<open>Helper lemmas: cycle detection\<close>

lemma reaches_cycle_step:
  "(u, v) \<in> descendant_edges g \<Longrightarrow> reaches_cycle g v \<Longrightarrow> reaches_cycle g u"
  unfolding reaches_cycle_def by (blast intro: converse_rtrancl_into_rtrancl)

lemma reaches_cycle_back:
  "(u, v) \<in> descendant_edges g \<Longrightarrow> (v, u) \<in> (descendant_edges g)\<^sup>* \<Longrightarrow> reaches_cycle g u"
  unfolding reaches_cycle_def by (blast intro: rtrancl_into_trancl2)

lemma reaches_cycle_succ:
  assumes "reaches_cycle g u"
  shows "\<exists>v. (u, v) \<in> descendant_edges g \<and> reaches_cycle g v"
proof -
  from assms obtain w where uw: "(u, w) \<in> (descendant_edges g)\<^sup>*"
    and ww: "(w, w) \<in> (descendant_edges g)\<^sup>+"
    unfolding reaches_cycle_def by blast
  from uw show ?thesis
  proof (cases rule: converse_rtranclE)
    case base
    from ww obtain v where "(w, v) \<in> descendant_edges g" "(v, w) \<in> (descendant_edges g)\<^sup>*"
      by (blast dest: tranclD)
    with ww base show ?thesis unfolding reaches_cycle_def by blast
  next
    case (step v)
    with ww show ?thesis unfolding reaches_cycle_def by blast
  qed
qed

lemma DFS_correct:
  "col cur = None \<Longrightarrow> black_ok g col \<Longrightarrow> grey_reach g col cur
     \<Longrightarrow> DFS_post g col cur (DFS g col cur)"
  "col cur = Some True \<Longrightarrow> black_ok g col \<Longrightarrow> grey_reach g col cur
     \<Longrightarrow> \<forall>v \<in> set (descendantsOf g cur). v \<in> set ns \<or> col v = Some False
     \<Longrightarrow> set ns \<subseteq> set (descendantsOf g cur)
     \<Longrightarrow> DFS_post g col cur (DFS_loop g col cur ns)"
proof (induction g col cur and g col cur ns rule: DFS_DFS_loop.induct)
  case (1 g col currentNode)
  let ?c = "col(currentNode \<mapsto> True)"
  have b: "black_ok g ?c" using "1.prems" by (simp add: black_ok_def)
  have r: "grey_reach g ?c currentNode" using "1.prems" by (simp add: grey_reach_def)
  have p: "DFS_post g ?c currentNode (DFS_loop g ?c currentNode (descendantsOf g currentNode))"
    by (rule "1.IH" [OF _ b r]) simp_all
  have k: "?c u = Some False" if "col u = Some False" for u
    using that "1.prems"(1) by (cases "u = currentNode") simp_all
  have t: "(?c u = Some True \<and> u \<noteq> currentNode) \<longleftrightarrow> (col u = Some True \<and> u \<noteq> currentNode)" for u
    by simp
  from p show ?case
    unfolding DFS_post_def DFS.simps t using k by (simp split: if_splits)
next
  case (2 g col currentNode)
  have "\<not> reaches_cycle g currentNode"
  proof
    assume "reaches_cycle g currentNode"
    then obtain v where "(currentNode, v) \<in> descendant_edges g" "reaches_cycle g v"
      using reaches_cycle_succ by blast
    with "2.prems" show False by (auto simp: descendant_edges_def black_ok_def)
  qed
  with "2.prems" show ?case
    by (auto simp: DFS_post_def black_ok_def)
next
  case (3 g col currentNode nextNode rest)
  from "3.prems" have e: "(currentNode, nextNode) \<in> descendant_edges g"
    by (auto simp: descendant_edges_def)
  show ?case
  proof (cases "col nextNode")
    case None
    obtain b col' where d: "DFS g col nextNode = (b, col')" by (cases "DFS g col nextNode")
    have gr: "grey_reach g col nextNode"
      unfolding grey_reach_def
    proof (intro allI impI)
      fix u assume "col u = Some True"
      with "3.prems"(3) have "(u, currentNode) \<in> (descendant_edges g)\<^sup>*"
        by (simp add: grey_reach_def)
      from this e show "(u, nextNode) \<in> (descendant_edges g)\<^sup>*"
        by (rule rtrancl_into_rtrancl)
    qed
    have p: "DFS_post g col nextNode (DFS g col nextNode)"
      by (rule "3.IH"(1) [OF None None "3.prems"(2) gr])
    show ?thesis
    proof (cases b)
      case True
      with p d have "reaches_cycle g nextNode" by (simp add: DFS_post_def)
      with e have "reaches_cycle g currentNode" by (rule reaches_cycle_step)
      with None d True show ?thesis by (simp add: DFS_post_def)
    next
      case False
      with p d have q: "black_ok g col'" "\<forall>u. col' u = Some True \<longleftrightarrow> col u = Some True \<and> u \<noteq> nextNode"
        "col' nextNode = Some False" "\<forall>u. col u = Some False \<longrightarrow> col' u = Some False"
        by (simp_all add: DFS_post_def)
      from "3.prems"(1) None have ne: "currentNode \<noteq> nextNode" by auto
      from q(2) [THEN spec, of currentNode] ne "3.prems"(1) have c1: "col' currentNode = Some True"
        by simp
      from q(2) "3.prems"(3) have c3: "grey_reach g col' currentNode" by (simp add: grey_reach_def)
      from q(3,4) "3.prems"(4) have c4: "\<forall>v \<in> set (descendantsOf g currentNode). v \<in> set rest \<or> col' v = Some False"
        by auto
      from "3.prems"(5) have c5: "set rest \<subseteq> set (descendantsOf g currentNode)" by simp
      have "DFS_post g col' currentNode (DFS_loop g col' currentNode rest)"
        using "3.IH"(2) [OF None d [symmetric] _ c1 q(1) c3 c4 c5] False by simp
      with q(2,4) None d False show ?thesis
        by (auto simp: DFS_post_def)
    qed
  next
    case (Some c)
    show ?thesis
    proof (cases c)
      case True
      with Some "3.prems"(3) have "(nextNode, currentNode) \<in> (descendant_edges g)\<^sup>*"
        by (simp add: grey_reach_def)
      with e have "reaches_cycle g currentNode" by (rule reaches_cycle_back)
      with Some True show ?thesis by (simp add: DFS_post_def)
    next
      case False
      from Some False "3.prems"(4) have c4: "\<forall>v \<in> set (descendantsOf g currentNode). v \<in> set rest \<or> col v = Some False"
        by auto
      from "3.prems"(5) have c5: "set rest \<subseteq> set (descendantsOf g currentNode)" by simp
      have "DFS_post g col currentNode (DFS_loop g col currentNode rest)"
        using "3.IH"(3) [OF Some _ "3.prems"(1,2,3) c4 c5] False by simp
      with Some False show ?thesis by simp
    qed
  qed
qed

lemma DFS_root: "fst (DFS g Map.empty r) \<longleftrightarrow> reaches_cycle g r"
proof -
  have "DFS_post g Map.empty r (DFS g Map.empty r)"
    by (rule DFS_correct(1)) (simp_all add: black_ok_def grey_reach_def)
  then show ?thesis
    by (auto simp: DFS_post_def black_ok_def split: if_splits)
qed

lemma hasCycle_loop_iff: "hasCycle_loop g rs \<longleftrightarrow> (\<exists>r \<in> set rs. reaches_cycle g r)"
  by (induction rs) (simp_all add: DFS_root)

lemma cycle_node_in_graph:
  assumes "(v, v) \<in> (descendant_edges g)\<^sup>+"
  shows "v < length (mNodes g)"
proof -
  from assms obtain w where "(v, w) \<in> descendant_edges g" by (blast dest: tranclD)
  then show ?thesis
    by (auto simp: descendant_edges_def descendantsOf_def split: if_splits)
qed

subsection \<open>Claims: cycle detection\<close>

text \<open>
  C1. \<^verbatim>\<open>hasCycle\<close> returns true if and only if, in the directed graph of the descendant
  edges, a cycle can be reached from some node of the graph; this is the case exactly when
  the descendant edges have a cycle at all, so \<^verbatim>\<open>hasCycle\<close> returns false for every acyclic
  graph.
\<close>

theorem hasCycle_iff:
  "(hasCycle g \<longleftrightarrow>
      (\<exists>r < length (mNodes g). \<exists>v. (r, v) \<in> (descendant_edges g)\<^sup>* \<and> (v, v) \<in> (descendant_edges g)\<^sup>+))
   \<and> (hasCycle g \<longleftrightarrow> (\<exists>v. (v, v) \<in> (descendant_edges g)\<^sup>+))"
proof -
  have a: "hasCycle g \<longleftrightarrow> (\<exists>r < length (mNodes g). reaches_cycle g r)"
    by (auto simp: hasCycle_def hasCycle_loop_iff)
  have "(\<exists>r < length (mNodes g). reaches_cycle g r) \<longleftrightarrow> (\<exists>v. (v, v) \<in> (descendant_edges g)\<^sup>+)"
  proof
    assume "\<exists>r < length (mNodes g). reaches_cycle g r"
    then show "\<exists>v. (v, v) \<in> (descendant_edges g)\<^sup>+" by (auto simp: reaches_cycle_def)
  next
    assume "\<exists>v. (v, v) \<in> (descendant_edges g)\<^sup>+"
    then obtain v where v: "(v, v) \<in> (descendant_edges g)\<^sup>+" ..
    then have "v < length (mNodes g)" by (rule cycle_node_in_graph)
    moreover from v have "reaches_cycle g v" unfolding reaches_cycle_def by blast
    ultimately show "\<exists>r < length (mNodes g). reaches_cycle g r" by blast
  qed
  with a show ?thesis by (simp add: reaches_cycle_def)
qed


theorem hasCycle_iff_witness:
  "\<not> hasCycle Test1_graph \<and> (\<forall>v. (v, v) \<notin> (descendant_edges Test1_graph)\<^sup>+)
   \<and> hasCycle cyclic_example \<and> (\<exists>v. (v, v) \<in> (descendant_edges cyclic_example)\<^sup>+)"
proof -
  have t1: "hasCycle Test1_graph = False"
    by (simp add: hasCycle_def Test1_graph_eq DFS.simps descendantsOf_def upt_rec)
  have t2: "hasCycle cyclic_example = True"
    by (simp add: hasCycle_def cyclic_example_eq DFS.simps descendantsOf_def upt_rec)
  from hasCycle_iff [of Test1_graph] hasCycle_iff [of cyclic_example] t1 t2
  show ?thesis by simp
qed

subsection \<open>Helper lemmas: the invariant of a run\<close>

lemma sum_list_update_add:
  fixes f :: "'a \<Rightarrow> 'b :: comm_monoid_add"
  shows "k < length ts \<Longrightarrow> (\<Sum>t \<leftarrow> ts[k := t']. f t) + f (ts ! k) = (\<Sum>t \<leftarrow> ts. f t) + f t'"
proof (induction ts arbitrary: k)
  case Nil
  then show ?case by simp
next
  case (Cons a ts)
  show ?case
  proof (cases k)
    case 0
    then show ?thesis by (simp add: ac_simps)
  next
    case (Suc j)
    with Cons.prems have "j < length ts" by simp
    from Cons.IH [OF this] Suc show ?thesis by (simp add: ac_simps)
  qed
qed

lemma unstarted_start:
  assumes "n < length (mNodes g0)" and "n \<notin> set st"
  shows "unstarted g0 (st @ [n]) + mset (mDescendantArguments (mNodes g0 ! n)) = unstarted g0 st"
proof -
  have "(\<Sum>p \<leftarrow> [0..<N]. if p \<in> set (st @ [n]) then {#} else (f p :: nat multiset))
          + (if n < N then f n else {#})
        = (\<Sum>p \<leftarrow> [0..<N]. if p \<in> set st then {#} else f p)" for N f
    using assms(2) by (induction N) (auto simp: ac_simps)
  from this [where N = "length (mNodes g0)" and f = "\<lambda>p. mset (mDescendantArguments (mNodes g0 ! p))"] assms(1)
  show ?thesis by (simp add: unstarted_def)
qed

lemma run_invI:
  assumes "length (mNodes (graph s)) = length (mNodes g0)"
    and "\<And>i. i < length (mNodes g0) \<Longrightarrow>
            mDescendantArguments (mNodes (graph s) ! i) = mDescendantArguments (mNodes g0 ! i)
            \<and> Args_size (mNodes (graph s) ! i) = Args_size (mNodes g0 ! i)"
    and "\<And>c. c < length (mNodes g0) \<Longrightarrow>
            unat (mPendingCount (mNodes (graph s) ! c)) = Args_size (mNodes g0 ! c) + count (owed g0 s) c"
    and "\<And>c. c \<in># claimed s \<Longrightarrow> c < length (mNodes g0) \<and> mPendingCount (mNodes (graph s) ! c) = 0"
    and "claimed s = mset (triggered s) + mset (initialNodes (execute_begin g0 (world s) 0))"
    and "\<And>c. count (claimed s) c \<le> 1"
    and "mset (submitted s)
          = mset (mQueue (mPool (graph s))) + (\<Sum>t \<leftarrow> threads s. exec_of t)
            + mset (started s) + mset (failed s)"
    and "mset (started s) = (\<Sum>t \<leftarrow> threads s. noti_of t) + mset (finished s)"
    and "\<And>n. n \<in> set (started s) \<Longrightarrow> n < length (mNodes g0)"
    and "mCompletedTasks (graph s) = of_nat (length (finished s))"
    and "\<not> underflow s"
  shows "run_inv g0 s"
  unfolding run_inv_def using assms by blast

lemma run_invD:
  assumes "run_inv g0 s"
  shows "length (mNodes (graph s)) = length (mNodes g0)"
    and "\<And>i. i < length (mNodes g0) \<Longrightarrow>
            mDescendantArguments (mNodes (graph s) ! i) = mDescendantArguments (mNodes g0 ! i)"
    and "\<And>i. i < length (mNodes g0) \<Longrightarrow>
            Args_size (mNodes (graph s) ! i) = Args_size (mNodes g0 ! i)"
    and "\<And>c. c < length (mNodes g0) \<Longrightarrow>
            unat (mPendingCount (mNodes (graph s) ! c)) = Args_size (mNodes g0 ! c) + count (owed g0 s) c"
    and "\<And>c. c \<in># claimed s \<Longrightarrow> c < length (mNodes g0)"
    and "\<And>c. c \<in># claimed s \<Longrightarrow> mPendingCount (mNodes (graph s) ! c) = 0"
    and "claimed s = mset (triggered s) + mset (initialNodes (execute_begin g0 (world s) 0))"
    and "\<And>c. count (claimed s) c \<le> 1"
    and "mset (submitted s)
          = mset (mQueue (mPool (graph s))) + (\<Sum>t \<leftarrow> threads s. exec_of t)
            + mset (started s) + mset (failed s)"
    and "mset (started s) = (\<Sum>t \<leftarrow> threads s. noti_of t) + mset (finished s)"
    and "\<And>n. n \<in> set (started s) \<Longrightarrow> n < length (mNodes g0)"
    and "mCompletedTasks (graph s) = of_nat (length (finished s))"
    and "\<not> underflow s"
  using assms unfolding run_inv_def by blast+

lemma ready_world: "initialNodes (execute_begin g0 w 0) = initialNodes (execute_begin g0 w' 0)"
  by (simp add: execute_begin_def)

lemma run_inv_main_push:
  assumes inv: "run_inv g0 s" and st: "main_push s = Some s'"
  shows "run_inv g0 s'"
proof -
  from st obtain n ns where i: "initialNodes s = n # ns"
    and s': "s' = s\<lparr>graph := executeSingleNode (graph s) n, initialNodes := ns,
                    submitted := submitted s @ [n]\<rparr>"
    by (auto simp: main_push_def split: list.splits)
  note D = run_invD [OF inv]
  have g: "mNodes (graph s') = mNodes (graph s)" "mCompletedTasks (graph s') = mCompletedTasks (graph s)"
    "mQueue (mPool (graph s')) = mQueue (mPool (graph s)) @ [n]"
    by (simp_all add: s' executeSingleNode_def push_def)
  have f: "threads s' = threads s" "started s' = started s" "failed s' = failed s"
    "finished s' = finished s" "triggered s' = triggered s" "underflow s' = underflow s"
    "world s' = world s" "submitted s' = submitted s @ [n]"
    by (simp_all add: s')
  have c: "claimed s' = claimed s" by (simp add: s' i claimed_def)
  have o: "owed g0 s' = owed g0 s" by (simp add: s' owed_def)
  show ?thesis
  proof (rule run_invI)
    show "length (mNodes (graph s')) = length (mNodes g0)" using D(1) by (simp only: g)
    show "mDescendantArguments (mNodes (graph s') ! i) = mDescendantArguments (mNodes g0 ! i)
          \<and> Args_size (mNodes (graph s') ! i) = Args_size (mNodes g0 ! i)"
      if "i < length (mNodes g0)" for i
      using D(2,3) [OF that] by (simp only: g)
    show "unat (mPendingCount (mNodes (graph s') ! c)) = Args_size (mNodes g0 ! c) + count (owed g0 s') c"
      if "c < length (mNodes g0)" for c
      using D(4) [OF that] by (simp only: g o)
    show "c < length (mNodes g0) \<and> mPendingCount (mNodes (graph s') ! c) = 0" if "c \<in># claimed s'" for c
      using D(5,6) [of c] that by (simp only: g c)
    show "claimed s' = mset (triggered s') + mset (initialNodes (execute_begin g0 (world s') 0))"
      using D(7) by (simp only: c f)
    show "count (claimed s') c \<le> 1" for c using D(8) [of c] by (simp only: c)
    show "mset (submitted s')
          = mset (mQueue (mPool (graph s'))) + (\<Sum>t \<leftarrow> threads s'. exec_of t)
            + mset (started s') + mset (failed s')"
      unfolding g f using D(9) by simp
    show "mset (started s') = (\<Sum>t \<leftarrow> threads s'. noti_of t) + mset (finished s')"
      using D(10) by (simp only: f)
    show "n < length (mNodes g0)" if "n \<in> set (started s')" for n
      using D(11) [of n] that by (simp only: f)
    show "mCompletedTasks (graph s') = of_nat (length (finished s'))"
      using D(12) by (simp only: g f)
    show "\<not> underflow s'" using D(13) by (simp add: f)
  qed
qed

lemma thread_sums:
  fixes f :: "worker \<Rightarrow> nat multiset"
  assumes "k < length ts" and "ts ! k = told"
  shows "(\<Sum>t \<leftarrow> ts[k := tnew]. f t) + f told = (\<Sum>t \<leftarrow> ts. f t) + f tnew"
  using sum_list_update_add [OF assms(1), of f tnew] assms(2) by simp

lemma run_inv_pop:
  assumes inv: "run_inv g0 s" and k: "k < length (threads s)" and tk: "threads s ! k = Idle"
    and q: "mQueue (mPool (graph s)) = n # q"
    and s': "s' = s\<lparr>graph := (graph s)\<lparr>mPool := (mPool (graph s))\<lparr>mQueue := q\<rparr>\<rparr>,
                    threads := (threads s)[k := Executing n]\<rparr>"
  shows "run_inv g0 s'"
proof -
  note D = run_invD [OF inv]
  note T = thread_sums [OF k tk, where tnew = "Executing n"]
  have g: "mNodes (graph s') = mNodes (graph s)" "mCompletedTasks (graph s') = mCompletedTasks (graph s)"
    "mQueue (mPool (graph s')) = q"
    by (simp_all add: s')
  have f: "started s' = started s" "failed s' = failed s"
    "finished s' = finished s" "triggered s' = triggered s" "underflow s' = underflow s"
    "world s' = world s" "submitted s' = submitted s" "initialNodes s' = initialNodes s"
    "threads s' = (threads s)[k := Executing n]"
    by (simp_all add: s')
  have e: "(\<Sum>t \<leftarrow> threads s'. exec_of t) = (\<Sum>t \<leftarrow> threads s. exec_of t) + {#n#}"
    using T [where f = exec_of] by (simp add: f)
  have n: "(\<Sum>t \<leftarrow> threads s'. noti_of t) = (\<Sum>t \<leftarrow> threads s. noti_of t)"
    using T [where f = noti_of] by (simp add: f)
  have u: "(\<Sum>t \<leftarrow> threads s'. subm_of t) = (\<Sum>t \<leftarrow> threads s. subm_of t)"
    using T [where f = subm_of] by (simp add: f)
  have t: "(\<Sum>t \<leftarrow> threads s'. out_of t) = (\<Sum>t \<leftarrow> threads s. out_of t)"
    using T [where f = out_of] by (simp add: f)
  have c: "claimed s' = claimed s" by (simp add: claimed_def u f(1-8))
  have o: "owed g0 s' = owed g0 s" by (simp add: owed_def t f(1-8))
  show ?thesis
  proof (rule run_invI)
    show "length (mNodes (graph s')) = length (mNodes g0)" using D(1) by (simp only: g)
    show "mDescendantArguments (mNodes (graph s') ! i) = mDescendantArguments (mNodes g0 ! i)
          \<and> Args_size (mNodes (graph s') ! i) = Args_size (mNodes g0 ! i)"
      if "i < length (mNodes g0)" for i
      using D(2,3) [OF that] by (simp only: g)
    show "unat (mPendingCount (mNodes (graph s') ! c)) = Args_size (mNodes g0 ! c) + count (owed g0 s') c"
      if "c < length (mNodes g0)" for c
      using D(4) [OF that] by (simp only: g o)
    show "c < length (mNodes g0) \<and> mPendingCount (mNodes (graph s') ! c) = 0" if "c \<in># claimed s'" for c
      using D(5,6) [of c] that by (simp only: g c)
    show "claimed s' = mset (triggered s') + mset (initialNodes (execute_begin g0 (world s') 0))"
      using D(7) by (simp only: c f)
    show "count (claimed s') c \<le> 1" for c using D(8) [of c] by (simp only: c)
    show "mset (submitted s')
          = mset (mQueue (mPool (graph s'))) + (\<Sum>t \<leftarrow> threads s'. exec_of t)
            + mset (started s') + mset (failed s')"
      unfolding g e f(1-8) using D(9) q by simp
    show "mset (started s') = (\<Sum>t \<leftarrow> threads s'. noti_of t) + mset (finished s')"
      using D(10) by (simp only: f(1-8) n)
    show "n < length (mNodes g0)" if "n \<in> set (started s')" for n
      using D(11) [of n] that by (simp only: f)
    show "mCompletedTasks (graph s') = of_nat (length (finished s'))"
      using D(12) by (simp only: g f)
    show "\<not> underflow s'" using D(13) by (simp add: f)
  qed
qed

lemma run_inv_fail:
  assumes inv: "run_inv g0 s" and k: "k < length (threads s)" and tk: "threads s ! k = Executing n"
    and s': "s' = s\<lparr>threads := (threads s)[k := Idle], failed := failed s @ [n]\<rparr>"
  shows "run_inv g0 s'"
proof -
  note D = run_invD [OF inv]
  note T = thread_sums [OF k tk, where tnew = Idle]
  have g: "graph s' = graph s"
    by (simp_all add: s')
  have f: "started s' = started s" "failed s' = failed s @ [n]"
    "finished s' = finished s" "triggered s' = triggered s" "underflow s' = underflow s"
    "world s' = world s" "submitted s' = submitted s" "initialNodes s' = initialNodes s"
    "threads s' = (threads s)[k := Idle]"
    by (simp_all add: s')
  have e: "(\<Sum>t \<leftarrow> threads s. exec_of t) = (\<Sum>t \<leftarrow> threads s'. exec_of t) + {#n#}"
    using T [where f = exec_of] by (simp add: f)
  have n: "(\<Sum>t \<leftarrow> threads s'. noti_of t) = (\<Sum>t \<leftarrow> threads s. noti_of t)"
    using T [where f = noti_of] by (simp add: f)
  have u: "(\<Sum>t \<leftarrow> threads s'. subm_of t) = (\<Sum>t \<leftarrow> threads s. subm_of t)"
    using T [where f = subm_of] by (simp add: f)
  have t: "(\<Sum>t \<leftarrow> threads s'. out_of t) = (\<Sum>t \<leftarrow> threads s. out_of t)"
    using T [where f = out_of] by (simp add: f)
  have c: "claimed s' = claimed s" by (simp add: claimed_def u f(1-8))
  have o: "owed g0 s' = owed g0 s" by (simp add: owed_def t f(1-8))
  show ?thesis
  proof (rule run_invI)
    show "length (mNodes (graph s')) = length (mNodes g0)" using D(1) by (simp only: g)
    show "mDescendantArguments (mNodes (graph s') ! i) = mDescendantArguments (mNodes g0 ! i)
          \<and> Args_size (mNodes (graph s') ! i) = Args_size (mNodes g0 ! i)"
      if "i < length (mNodes g0)" for i
      using D(2,3) [OF that] by (simp only: g)
    show "unat (mPendingCount (mNodes (graph s') ! c)) = Args_size (mNodes g0 ! c) + count (owed g0 s') c"
      if "c < length (mNodes g0)" for c
      using D(4) [OF that] by (simp only: g o)
    show "c < length (mNodes g0) \<and> mPendingCount (mNodes (graph s') ! c) = 0" if "c \<in># claimed s'" for c
      using D(5,6) [of c] that by (simp only: g c)
    show "claimed s' = mset (triggered s') + mset (initialNodes (execute_begin g0 (world s') 0))"
      using D(7) by (simp only: c f)
    show "count (claimed s') c \<le> 1" for c using D(8) [of c] by (simp only: c)
    show "mset (submitted s')
          = mset (mQueue (mPool (graph s'))) + (\<Sum>t \<leftarrow> threads s'. exec_of t)
            + mset (started s') + mset (failed s')"
      unfolding g f(1-8) using D(9) e by simp
    show "mset (started s') = (\<Sum>t \<leftarrow> threads s'. noti_of t) + mset (finished s')"
      using D(10) by (simp only: f(1-8) n)
    show "n < length (mNodes g0)" if "n \<in> set (started s')" for n
      using D(11) [of n] that by (simp only: f)
    show "mCompletedTasks (graph s') = of_nat (length (finished s'))"
      using D(12) by (simp only: g f)
    show "\<not> underflow s'" using D(13) by (simp add: f)
  qed
qed

lemma invoke_task_fields:
  assumes "invoke_task n w = Inr (n', w')"
  shows "mDescendantArguments n' = mDescendantArguments n" "Args_size n' = Args_size n"
    "mPendingCount n' = mPendingCount n"
  using assms
  by (auto simp: invoke_task_def Let_def split: TaskCallback.splits if_splits prod.splits)

lemma run_inv_invoke:
  assumes inv: "run_inv g0 s" and k: "k < length (threads s)" and tk: "threads s ! k = Executing n"
    and n: "n < length (mNodes (graph s))"
    and iv: "invoke_task (mNodes (graph s) ! n) (world s) = Inr (n', w')"
    and s': "s' = s\<lparr>graph := (graph s)\<lparr>mNodes := (mNodes (graph s))[n := n']\<rparr>,
                    world := w',
                    threads := (threads s)[k := Notifying n (mDescendantArguments n')],
                    started := started s @ [n]\<rparr>"
  shows "run_inv g0 s'"
proof -
  note D = run_invD [OF inv]
  note T = thread_sums [OF k tk, where tnew = "Notifying n (mDescendantArguments n')"]
  note F = invoke_task_fields [OF iv]
  from n D(1) have n0: "n < length (mNodes g0)" by simp
  have ch: "mDescendantArguments n' = mDescendantArguments (mNodes g0 ! n)"
    using F(1) D(2) [OF n0] by simp
  have g: "mCompletedTasks (graph s') = mCompletedTasks (graph s)"
    "mQueue (mPool (graph s')) = mQueue (mPool (graph s))"
    "length (mNodes (graph s')) = length (mNodes (graph s))"
    by (simp_all add: s')
  have nd: "mDescendantArguments (mNodes (graph s') ! i) = mDescendantArguments (mNodes (graph s) ! i)
      \<and> Args_size (mNodes (graph s') ! i) = Args_size (mNodes (graph s) ! i)
      \<and> mPendingCount (mNodes (graph s') ! i) = mPendingCount (mNodes (graph s) ! i)"
    if "i < length (mNodes g0)" for i
    using that D(1) F by (cases "i = n") (simp_all add: s')
  have f: "started s' = started s @ [n]" "failed s' = failed s"
    "finished s' = finished s" "triggered s' = triggered s" "underflow s' = underflow s"
    "world s' = w'" "submitted s' = submitted s" "initialNodes s' = initialNodes s"
    "threads s' = (threads s)[k := Notifying n (mDescendantArguments n')]"
    by (simp_all add: s')
  have e: "(\<Sum>t \<leftarrow> threads s. exec_of t) = (\<Sum>t \<leftarrow> threads s'. exec_of t) + {#n#}"
    using T [where f = exec_of] by (simp add: f)
  have no: "(\<Sum>t \<leftarrow> threads s'. noti_of t) = (\<Sum>t \<leftarrow> threads s. noti_of t) + {#n#}"
    using T [where f = noti_of] by (simp add: f)
  have u: "(\<Sum>t \<leftarrow> threads s'. subm_of t) = (\<Sum>t \<leftarrow> threads s. subm_of t)"
    using T [where f = subm_of] by (simp add: f)
  have t: "(\<Sum>t \<leftarrow> threads s'. out_of t)
       = (\<Sum>t \<leftarrow> threads s. out_of t) + mset (mDescendantArguments (mNodes g0 ! n))"
    using T [where f = out_of] by (simp add: f ch)
  have c: "claimed s' = claimed s" by (simp add: claimed_def u f(1-8))
  have "count (mset (submitted s)) n \<le> 1"
    using D(8) [of n] by (simp add: claimed_def)
  moreover have "count (mset (submitted s)) n = count (mset (mQueue (mPool (graph s)))) n
      + count (\<Sum>t \<leftarrow> threads s'. exec_of t) n + 1 + count (mset (started s)) n
      + count (mset (failed s)) n"
    by (simp add: D(9) e)
  ultimately have "count (mset (started s)) n = 0" by simp
  then have ns: "n \<notin> set (started s)" by (simp add: count_eq_zero_iff)
  have o: "owed g0 s' = owed g0 s"
    using unstarted_start [OF n0 ns] by (simp add: owed_def t f(1-8) ac_simps)
  show ?thesis
  proof (rule run_invI)
    show "length (mNodes (graph s')) = length (mNodes g0)" using D(1) by (simp only: g)
    show "mDescendantArguments (mNodes (graph s') ! i) = mDescendantArguments (mNodes g0 ! i)
          \<and> Args_size (mNodes (graph s') ! i) = Args_size (mNodes g0 ! i)"
      if "i < length (mNodes g0)" for i
      using D(2,3) [OF that] nd [OF that] by simp
    show "unat (mPendingCount (mNodes (graph s') ! c)) = Args_size (mNodes g0 ! c) + count (owed g0 s') c"
      if "c < length (mNodes g0)" for c
      using D(4) [OF that] nd [OF that] by (simp only: o)
    show "c < length (mNodes g0) \<and> mPendingCount (mNodes (graph s') ! c) = 0" if "c \<in># claimed s'" for c
    proof -
      from that have a: "c < length (mNodes g0)" "mPendingCount (mNodes (graph s) ! c) = 0"
        using D(5,6) [of c] by (simp_all only: c)
      with nd [OF a(1)] show ?thesis by simp
    qed
    show "claimed s' = mset (triggered s') + mset (initialNodes (execute_begin g0 (world s') 0))"
      using D(7) ready_world [of g0 "world s'" "world s"] by (simp only: c f(1-8))
    show "count (claimed s') c \<le> 1" for c using D(8) [of c] by (simp only: c)
    show "mset (submitted s')
          = mset (mQueue (mPool (graph s'))) + (\<Sum>t \<leftarrow> threads s'. exec_of t)
            + mset (started s') + mset (failed s')"
      unfolding g f(1-8) using D(9) e by simp
    show "mset (started s') = (\<Sum>t \<leftarrow> threads s'. noti_of t) + mset (finished s')"
      using D(10) by (simp add: f(1-8) no)
    show "m < length (mNodes g0)" if "m \<in> set (started s')" for m
      using D(11) [of m] that n0 by (auto simp: f(1-8))
    show "mCompletedTasks (graph s') = of_nat (length (finished s'))"
      using D(12) by (simp only: g f)
    show "\<not> underflow s'" using D(13) by (simp add: f)
  qed
qed

lemma run_inv_complete:
  assumes inv: "run_inv g0 s" and k: "k < length (threads s)" and tk: "threads s ! k = Notifying n []"
    and s': "s' = s\<lparr>graph := onSingleNodeCompleted (graph s),
                    threads := (threads s)[k := Idle],
                    finished := finished s @ [n]\<rparr>"
  shows "run_inv g0 s'"
proof -
  note D = run_invD [OF inv]
  note T = thread_sums [OF k tk, where tnew = Idle]
  have g: "mNodes (graph s') = mNodes (graph s)" "mCompletedTasks (graph s') = mCompletedTasks (graph s) + 1"
    "mQueue (mPool (graph s')) = mQueue (mPool (graph s))"
    by (simp_all add: s' onSingleNodeCompleted_def)
  have f: "started s' = started s" "failed s' = failed s"
    "finished s' = finished s @ [n]" "triggered s' = triggered s" "underflow s' = underflow s"
    "world s' = world s" "submitted s' = submitted s" "initialNodes s' = initialNodes s"
    "threads s' = (threads s)[k := Idle]"
    by (simp_all add: s')
  have e: "(\<Sum>t \<leftarrow> threads s'. exec_of t) = (\<Sum>t \<leftarrow> threads s. exec_of t)"
    using T [where f = exec_of] by (simp add: f)
  have no: "(\<Sum>t \<leftarrow> threads s. noti_of t) = (\<Sum>t \<leftarrow> threads s'. noti_of t) + {#n#}"
    using T [where f = noti_of] by (simp add: f)
  have u: "(\<Sum>t \<leftarrow> threads s'. subm_of t) = (\<Sum>t \<leftarrow> threads s. subm_of t)"
    using T [where f = subm_of] by (simp add: f)
  have t: "(\<Sum>t \<leftarrow> threads s'. out_of t) = (\<Sum>t \<leftarrow> threads s. out_of t)"
    using T [where f = out_of] by (simp add: f)
  have c: "claimed s' = claimed s" by (simp add: claimed_def u f(1-8))
  have o: "owed g0 s' = owed g0 s" by (simp add: owed_def t f(1-8))
  show ?thesis
  proof (rule run_invI)
    show "length (mNodes (graph s')) = length (mNodes g0)" using D(1) by (simp only: g)
    show "mDescendantArguments (mNodes (graph s') ! i) = mDescendantArguments (mNodes g0 ! i)
          \<and> Args_size (mNodes (graph s') ! i) = Args_size (mNodes g0 ! i)"
      if "i < length (mNodes g0)" for i
      using D(2,3) [OF that] by (simp only: g)
    show "unat (mPendingCount (mNodes (graph s') ! c)) = Args_size (mNodes g0 ! c) + count (owed g0 s') c"
      if "c < length (mNodes g0)" for c
      using D(4) [OF that] by (simp only: g o)
    show "c < length (mNodes g0) \<and> mPendingCount (mNodes (graph s') ! c) = 0" if "c \<in># claimed s'" for c
      using D(5,6) [of c] that by (simp only: g c)
    show "claimed s' = mset (triggered s') + mset (initialNodes (execute_begin g0 (world s') 0))"
      using D(7) by (simp only: c f)
    show "count (claimed s') c \<le> 1" for c using D(8) [of c] by (simp only: c)
    show "mset (submitted s')
          = mset (mQueue (mPool (graph s'))) + (\<Sum>t \<leftarrow> threads s'. exec_of t)
            + mset (started s') + mset (failed s')"
      using D(9) by (simp only: g f(1-8) e)
    show "mset (started s') = (\<Sum>t \<leftarrow> threads s'. noti_of t) + mset (finished s')"
      using D(10) no by (simp add: f(1-8))
    show "n < length (mNodes g0)" if "n \<in> set (started s')" for n
      using D(11) [of n] that by (simp only: f)
    show "mCompletedTasks (graph s') = of_nat (length (finished s'))"
      using D(12) by (simp add: g f(1-8))
    show "\<not> underflow s'" using D(13) by (simp add: f)
  qed
qed

lemma run_inv_submit:
  assumes inv: "run_inv g0 s" and k: "k < length (threads s)" and tk: "threads s ! k = Submitting n c cs"
    and s': "s' = s\<lparr>graph := executeSingleNode (graph s) c,
                    threads := (threads s)[k := Notifying n cs],
                    submitted := submitted s @ [c]\<rparr>"
  shows "run_inv g0 s'"
proof -
  note D = run_invD [OF inv]
  note T = thread_sums [OF k tk, where tnew = "Notifying n cs"]
  have g: "mNodes (graph s') = mNodes (graph s)" "mCompletedTasks (graph s') = mCompletedTasks (graph s)"
    "mQueue (mPool (graph s')) = mQueue (mPool (graph s)) @ [c]"
    by (simp_all add: s' executeSingleNode_def push_def)
  have f: "started s' = started s" "failed s' = failed s"
    "finished s' = finished s" "triggered s' = triggered s" "underflow s' = underflow s"
    "world s' = world s" "submitted s' = submitted s @ [c]" "initialNodes s' = initialNodes s"
    "threads s' = (threads s)[k := Notifying n cs]"
    by (simp_all add: s')
  have e: "(\<Sum>t \<leftarrow> threads s'. exec_of t) = (\<Sum>t \<leftarrow> threads s. exec_of t)"
    using T [where f = exec_of] by (simp add: f)
  have no: "(\<Sum>t \<leftarrow> threads s'. noti_of t) = (\<Sum>t \<leftarrow> threads s. noti_of t)"
    using T [where f = noti_of] by (simp add: f)
  have u: "(\<Sum>t \<leftarrow> threads s. subm_of t) = (\<Sum>t \<leftarrow> threads s'. subm_of t) + {#c#}"
    using T [where f = subm_of] by (simp add: f)
  have t: "(\<Sum>t \<leftarrow> threads s'. out_of t) = (\<Sum>t \<leftarrow> threads s. out_of t)"
    using T [where f = out_of] by (simp add: f)
  have c: "claimed s' = claimed s" by (simp add: claimed_def u f(1-8))
  have o: "owed g0 s' = owed g0 s" by (simp add: owed_def t f(1-8))
  show ?thesis
  proof (rule run_invI)
    show "length (mNodes (graph s')) = length (mNodes g0)" using D(1) by (simp only: g)
    show "mDescendantArguments (mNodes (graph s') ! i) = mDescendantArguments (mNodes g0 ! i)
          \<and> Args_size (mNodes (graph s') ! i) = Args_size (mNodes g0 ! i)"
      if "i < length (mNodes g0)" for i
      using D(2,3) [OF that] by (simp only: g)
    show "unat (mPendingCount (mNodes (graph s') ! c)) = Args_size (mNodes g0 ! c) + count (owed g0 s') c"
      if "c < length (mNodes g0)" for c
      using D(4) [OF that] by (simp only: g o)
    show "c < length (mNodes g0) \<and> mPendingCount (mNodes (graph s') ! c) = 0" if "c \<in># claimed s'" for c
      using D(5,6) [of c] that by (simp only: g c)
    show "claimed s' = mset (triggered s') + mset (initialNodes (execute_begin g0 (world s') 0))"
      using D(7) by (simp only: c f)
    show "count (claimed s') c \<le> 1" for c using D(8) [of c] by (simp only: c)
    show "mset (submitted s')
          = mset (mQueue (mPool (graph s'))) + (\<Sum>t \<leftarrow> threads s'. exec_of t)
            + mset (started s') + mset (failed s')"
      using D(9) by (simp add: g f(1-8) e)
    show "mset (started s') = (\<Sum>t \<leftarrow> threads s'. noti_of t) + mset (finished s')"
      using D(10) by (simp only: f(1-8) no)
    show "n < length (mNodes g0)" if "n \<in> set (started s')" for n
      using D(11) [of n] that by (simp only: f)
    show "mCompletedTasks (graph s') = of_nat (length (finished s'))"
      using D(12) by (simp only: g f)
    show "\<not> underflow s'" using D(13) by (simp add: f)
  qed
qed

lemma run_inv_notify:
  assumes inv: "run_inv g0 s" and k: "k < length (threads s)"
    and tk: "threads s ! k = Notifying n (c # cs)"
    and cn: "c < length (mNodes (graph s))"
    and s': "s' = s\<lparr>graph := decrementPending (graph s) c,
                    threads := (threads s)[k := if mPendingCount (mNodes (decrementPending (graph s) c) ! c) = 0
                                                then Submitting n c cs else Notifying n cs],
                    triggered := (if mPendingCount (mNodes (decrementPending (graph s) c) ! c) = 0
                                  then triggered s @ [c] else triggered s),
                    underflow := (underflow s \<or> mPendingCount (mNodes (graph s) ! c) = 0)\<rparr>"
  shows "run_inv g0 s'"
proof -
  note D = run_invD [OF inv]
  let ?before = "mPendingCount (mNodes (graph s) ! c)"
  let ?zero = "mPendingCount (mNodes (decrementPending (graph s) c) ! c) = 0"
  let ?tnew = "if ?zero then Submitting n c cs else Notifying n cs"
  note T = thread_sums [OF k tk, where tnew = ?tnew]
  from cn D(1) have c0: "c < length (mNodes g0)" by simp
  have g: "mCompletedTasks (graph s') = mCompletedTasks (graph s)"
    "mQueue (mPool (graph s')) = mQueue (mPool (graph s))"
    "length (mNodes (graph s')) = length (mNodes (graph s))"
    by (simp_all add: s' decrementPending_def)
  have nd: "mDescendantArguments (mNodes (graph s') ! i) = mDescendantArguments (mNodes (graph s) ! i)
      \<and> Args_size (mNodes (graph s') ! i) = Args_size (mNodes (graph s) ! i)"
    if "i < length (mNodes g0)" for i
    using that D(1) by (cases "i = c") (simp_all add: s' decrementPending_def)
  have pc: "mPendingCount (mNodes (graph s') ! c) = ?before - 1"
    using cn by (simp add: s' decrementPending_def)
  have po: "mPendingCount (mNodes (graph s') ! i) = mPendingCount (mNodes (graph s) ! i)"
    if "i \<noteq> c" for i
    using that by (simp add: s' decrementPending_def)
  have z: "?zero \<longleftrightarrow> ?before - 1 = 0"
    using cn by (simp add: decrementPending_def)
  have f: "started s' = started s" "failed s' = failed s"
    "finished s' = finished s" "world s' = world s" "submitted s' = submitted s"
    "initialNodes s' = initialNodes s"
    "triggered s' = (if ?zero then triggered s @ [c] else triggered s)"
    "underflow s' = (underflow s \<or> ?before = 0)"
    by (simp_all add: s')
  have ft: "threads s' = (threads s)[k := ?tnew]" by (simp add: s')
  have e: "(\<Sum>t \<leftarrow> threads s'. exec_of t) = (\<Sum>t \<leftarrow> threads s. exec_of t)"
    using T [where f = exec_of] by (cases "?zero") (simp_all add: ft)
  have no: "(\<Sum>t \<leftarrow> threads s'. noti_of t) = (\<Sum>t \<leftarrow> threads s. noti_of t)"
    using T [where f = noti_of] by (cases "?zero") (simp_all add: ft)
  have u: "(\<Sum>t \<leftarrow> threads s'. subm_of t)
       = (\<Sum>t \<leftarrow> threads s. subm_of t) + (if ?zero then {#c#} else {#})"
    using T [where f = subm_of] by (cases "?zero") (simp_all add: ft)
  have t: "(\<Sum>t \<leftarrow> threads s. out_of t) = (\<Sum>t \<leftarrow> threads s'. out_of t) + {#c#}"
    using T [where f = out_of] by (cases "?zero") (simp_all add: ft)
  have cl: "claimed s' = claimed s + (if ?zero then {#c#} else {#})"
    by (simp add: claimed_def u f)
  have o: "owed g0 s = owed g0 s' + {#c#}" by (simp add: owed_def t f)
  from D(4) [OF c0] o have ub: "unat ?before = Args_size (mNodes g0 ! c) + count (owed g0 s') c + 1"
    by simp
  then have b0: "?before \<noteq> 0" by auto
  then have um: "unat (?before - 1) = unat ?before - 1" by (rule unat_minus_one)
  have nc: "c \<notin># claimed s" using D(6) [of c] b0 by blast
  show ?thesis
  proof (rule run_invI)
    show "length (mNodes (graph s')) = length (mNodes g0)" using D(1) by (simp only: g)
    show "mDescendantArguments (mNodes (graph s') ! i) = mDescendantArguments (mNodes g0 ! i)
          \<and> Args_size (mNodes (graph s') ! i) = Args_size (mNodes g0 ! i)"
      if "i < length (mNodes g0)" for i
      using D(2,3) [OF that] nd [OF that] by simp
    show "unat (mPendingCount (mNodes (graph s') ! i)) = Args_size (mNodes g0 ! i) + count (owed g0 s') i"
      if "i < length (mNodes g0)" for i
    proof (cases "i = c")
      case True
      with pc um ub show ?thesis by simp
    next
      case False
      with D(4) [OF that] po [OF False] o show ?thesis by simp
    qed
    show "i < length (mNodes g0) \<and> mPendingCount (mNodes (graph s') ! i) = 0" if "i \<in># claimed s'" for i
    proof (cases "i = c")
      case True
      with that nc have "?zero" by (simp add: cl split: if_splits)
      with z pc True c0 show ?thesis by simp
    next
      case False
      with that have "i \<in># claimed s" by (simp add: cl split: if_splits)
      with D(5,6) [of i] po [OF False] show ?thesis by simp
    qed
    show "claimed s' = mset (triggered s') + mset (initialNodes (execute_begin g0 (world s') 0))"
      using D(7) by (simp add: cl f)
    show "count (claimed s') i \<le> 1" for i
      using D(8) [of i] nc by (cases "i = c") (simp_all add: cl count_eq_zero_iff)
    show "mset (submitted s')
          = mset (mQueue (mPool (graph s'))) + (\<Sum>t \<leftarrow> threads s'. exec_of t)
            + mset (started s') + mset (failed s')"
      using D(9) by (simp only: g f e)
    show "mset (started s') = (\<Sum>t \<leftarrow> threads s'. noti_of t) + mset (finished s')"
      using D(10) by (simp only: f no)
    show "n < length (mNodes g0)" if "n \<in> set (started s')" for n
      using D(11) [of n] that by (simp only: f)
    show "mCompletedTasks (graph s') = of_nat (length (finished s'))"
      using D(12) by (simp only: g f)
    show "\<not> underflow s'" using D(13) b0 by (simp add: f)
  qed
qed

lemma run_inv_worker_step:
  assumes inv: "run_inv g0 s" and k: "k < length (threads s)" and st: "worker_step s k = Some s'"
  shows "run_inv g0 s'"
proof (cases "threads s ! k")
  case Idle
  with st obtain n q where "mQueue (mPool (graph s)) = n # q"
    "s' = s\<lparr>graph := (graph s)\<lparr>mPool := (mPool (graph s))\<lparr>mQueue := q\<rparr>\<rparr>,
            threads := (threads s)[k := Executing n]\<rparr>"
    by (auto simp: worker_step_def pop_def split: list.splits)
  with inv k Idle show ?thesis by (rule run_inv_pop)
next
  case (Executing n)
  with st have n: "n < length (mNodes (graph s))"
    by (simp add: worker_step_def split: if_splits)
  show ?thesis
  proof (cases "invoke_task (mNodes (graph s) ! n) (world s)")
    case (Inl e)
    with st Executing n have "s' = s\<lparr>threads := (threads s)[k := Idle], failed := failed s @ [n]\<rparr>"
      by (simp add: worker_step_def)
    with inv k Executing show ?thesis by (rule run_inv_fail)
  next
    case (Inr r)
    obtain n' w' where r: "r = (n', w')" by (cases r)
    with st Executing n Inr have "s' = s\<lparr>graph := (graph s)\<lparr>mNodes := (mNodes (graph s))[n := n']\<rparr>,
                    world := w',
                    threads := (threads s)[k := Notifying n (mDescendantArguments n')],
                    started := started s @ [n]\<rparr>"
      by (simp add: worker_step_def)
    with inv k Executing n Inr [unfolded r] show ?thesis by (rule run_inv_invoke)
  qed
next
  case (Notifying n cs)
  show ?thesis
  proof (cases cs)
    case Nil
    with st Notifying have "s' = s\<lparr>graph := onSingleNodeCompleted (graph s),
                    threads := (threads s)[k := Idle],
                    finished := finished s @ [n]\<rparr>"
      by (simp add: worker_step_def)
    with inv k Notifying [unfolded Nil] show ?thesis by (rule run_inv_complete)
  next
    case (Cons c cs')
    with st Notifying have c: "c < length (mNodes (graph s))"
      by (simp add: worker_step_def split: if_splits)
    with st Notifying Cons have "s' = s\<lparr>graph := decrementPending (graph s) c,
                    threads := (threads s)[k := if mPendingCount (mNodes (decrementPending (graph s) c) ! c) = 0
                                                then Submitting n c cs' else Notifying n cs'],
                    triggered := (if mPendingCount (mNodes (decrementPending (graph s) c) ! c) = 0
                                  then triggered s @ [c] else triggered s),
                    underflow := (underflow s \<or> mPendingCount (mNodes (graph s) ! c) = 0)\<rparr>"
      by (simp add: worker_step_def Let_def)
    with inv k Notifying [unfolded Cons] c show ?thesis by (rule run_inv_notify)
  qed
next
  case (Submitting n c cs)
  with st have "s' = s\<lparr>graph := executeSingleNode (graph s) c,
                    threads := (threads s)[k := Notifying n cs],
                    submitted := submitted s @ [c]\<rparr>"
    by (simp add: worker_step_def)
  with inv k Submitting show ?thesis by (rule run_inv_submit)
qed

lemma run_inv_step: "run_inv g0 s \<Longrightarrow> step s s' \<Longrightarrow> run_inv g0 s'"
  unfolding step_def by (blast intro: run_inv_main_push run_inv_worker_step)

lemma count_sum_list_mset:
  "count (\<Sum>p \<leftarrow> ps. mset (f p)) c = (\<Sum>p \<leftarrow> ps. count_list (f p) c)"
  by (induction ps) (simp_all add: count_mset)

lemma sum_list_replicate_empty: "sum_list (replicate n ({#} :: nat multiset)) = {#}"
  by (induction n) simp_all

lemma sum_list_replicate_Idle:
  "(\<Sum>t \<leftarrow> replicate n Idle. exec_of t) = {#}" "(\<Sum>t \<leftarrow> replicate n Idle. noti_of t) = {#}"
  "(\<Sum>t \<leftarrow> replicate n Idle. subm_of t) = {#}" "(\<Sum>t \<leftarrow> replicate n Idle. out_of t) = {#}"
  by (simp_all add: sum_list_replicate_empty)

lemma run_inv_begin:
  assumes "armed g"
  shows "run_inv g (execute_begin g w n)"
proof (rule run_invI)
  let ?s = "execute_begin g w n"
  have o: "owed g ?s = (\<Sum>p \<leftarrow> [0..<length (mNodes g)]. mset (mDescendantArguments (mNodes g ! p)))"
    by (simp add: owed_def execute_begin_def sum_list_replicate_empty unstarted_def)
  show "unat (mPendingCount (mNodes (graph ?s) ! c)) = Args_size (mNodes g ! c) + count (owed g ?s) c"
    if "c < length (mNodes g)" for c
    using assms that unfolding o count_sum_list_mset
    by (simp add: armed_def registrations_def execute_begin_def)
  have c: "claimed ?s = mset (filter (\<lambda>i. getPendingCount (mNodes g ! i) = 0) [0..<length (mNodes g)])"
    by (simp add: claimed_def execute_begin_def sum_list_replicate_empty)
  show "c < length (mNodes g) \<and> mPendingCount (mNodes (graph ?s) ! c) = 0" if "c \<in># claimed ?s" for c
    using that unfolding c by (simp add: execute_begin_def getPendingCount_def)
  show "claimed ?s = mset (triggered ?s) + mset (initialNodes (execute_begin g (world ?s) 0))"
    unfolding c by (simp add: execute_begin_def)
  show "count (claimed ?s) c \<le> 1" for c
  proof -
    have "distinct (filter (\<lambda>i. getPendingCount (mNodes g ! i) = 0) [0..<length (mNodes g)])" by simp
    then show ?thesis unfolding c by (simp add: distinct_count_atmost_1)
  qed
  show "mset (submitted ?s)
          = mset (mQueue (mPool (graph ?s))) + (\<Sum>t \<leftarrow> threads ?s. exec_of t)
            + mset (started ?s) + mset (failed ?s)"
    using assms by (simp add: execute_begin_def armed_def sum_list_replicate_empty)
  show "mset (started ?s) = (\<Sum>t \<leftarrow> threads ?s. noti_of t) + mset (finished ?s)"
    by (simp add: execute_begin_def sum_list_replicate_empty)
  show "mCompletedTasks (graph ?s) = of_nat (length (finished ?s))"
    using assms by (simp add: execute_begin_def armed_def)
qed (simp_all add: execute_begin_def)

lemma run_inv_reachable:
  assumes "armed g" and "reachable (execute_begin g w n) s"
  shows "run_inv g s"
  using assms(2) unfolding reachable_def
  by (induction rule: rtranclp_induct) (auto intro: run_inv_begin [OF assms(1)] run_inv_step)

lemma out_of_remaining: "out_of t = mset (remaining t)"
  by (cases t) simp_all

lemma in_sum_list_mset:
  fixes f :: "'a \<Rightarrow> nat multiset"
  shows "x \<in># (\<Sum>t \<leftarrow> ts. f t) \<longleftrightarrow> (\<exists>t \<in> set ts. x \<in># f t)"
  by (induction ts) auto

lemma subm_of_member: "c \<in># subm_of t \<longleftrightarrow> (\<exists>n cs. t = Submitting n c cs)"
  by (cases t) auto

lemma main_push_initialNodes: "main_push s = Some s' \<Longrightarrow> set (initialNodes s') \<subseteq> set (initialNodes s)"
  by (auto simp: main_push_def split: list.splits)

lemma worker_step_initialNodes: "worker_step s k = Some s' \<Longrightarrow> initialNodes s' = initialNodes s"
  by (cases "threads s ! k")
     (auto simp: worker_step_def Let_def split: list.splits prod.splits bool.splits if_splits sum.splits)

lemma reachable_initialNodes:
  "reachable s0 s \<Longrightarrow> set (initialNodes s) \<subseteq> set (initialNodes s0)"
  unfolding reachable_def
proof (induction rule: rtranclp_induct)
  case base
  then show ?case by simp
next
  case (step y z)
  then show ?case
    unfolding step_def using main_push_initialNodes worker_step_initialNodes by fastforce
qed

lemma distinct_if_count_le_1:
  assumes "\<And>c. count (mset xs) c \<le> 1"
  shows "distinct xs"
  unfolding distinct_count_atmost_1
proof (intro allI)
  fix a
  show "count (mset xs) a = (if a \<in> set xs then 1 else 0)"
  proof (cases "a \<in> set xs")
    case True
    then have "count (mset xs) a \<noteq> 0" by (simp add: count_eq_zero_iff)
    with assms [of a] have "count (mset xs) a = 1" by linarith
    with True show ?thesis by simp
  next
    case False
    then show ?thesis by (simp add: count_eq_zero_iff)
  qed
qed

lemma claimed_no_debt:
  assumes inv: "run_inv g s" and c: "c \<in># claimed s"
  shows "count (owed g s) c = 0" and "Args_size (mNodes g ! c) = 0"
proof -
  note D = run_invD [OF inv]
  from D(5) [OF c] have c0: "c < length (mNodes g)" .
  from D(4) [OF c0] D(6) [OF c] show "count (owed g s) c = 0" "Args_size (mNodes g ! c) = 0"
    by simp_all
qed

lemma no_debt_parents:
  assumes "count (owed g s) c = 0" and p: "p < length (mNodes g)"
    and cp: "c \<in> set (mDescendantArguments (mNodes g ! p))"
  shows "p \<in> set (started s)" and "\<forall>t \<in> set (threads s). c \<notin> set (remaining t)"
proof -
  from assms(1) have a: "c \<notin># (\<Sum>t \<leftarrow> threads s. out_of t)" and b: "c \<notin># unstarted g (started s)"
    by (simp_all add: owed_def count_eq_zero_iff)
  from a show "\<forall>t \<in> set (threads s). c \<notin> set (remaining t)"
    by (auto simp: in_sum_list_mset out_of_remaining)
  show "p \<in> set (started s)"
  proof (rule ccontr)
    assume "p \<notin> set (started s)"
    with p cp have "c \<in># unstarted g (started s)"
      unfolding unstarted_def in_sum_list_mset by (auto intro!: bexI [of _ p])
    with b show False ..
  qed
qed

lemma of_nat_64_neq:
  assumes "a < b" and "b < 2 ^ 64"
  shows "(of_nat a :: 64 word) \<noteq> of_nat b"
proof
  assume "(of_nat a :: 64 word) = of_nat b"
  then have "unat (of_nat a :: 64 word) = unat (of_nat b :: 64 word)" by simp
  with assms show False by (simp add: unat_of_nat)
qed

subsection \<open>Helper lemmas: runs without a choice\<close>

lemma set_map_filter: "set (List.map_filter f xs) = {y. \<exists>x \<in> set xs. f x = Some y}"
  by (induction xs) (auto simp: map_filter_def)

lemma step_successors: "step s s' \<longleftrightarrow> s' \<in> set (successors s)"
  unfolding step_def successors_def set_append set_map_filter
  by (cases "main_push s") auto

lemma reachable_cases:
  assumes "reachable s u"
  shows "u = s \<or> (\<exists>s'. step s s' \<and> reachable s' u)"
proof -
  from assms have "step\<^sup>*\<^sup>* s u" by (simp add: reachable_def)
  then show ?thesis
  proof (cases rule: converse_rtranclpE)
    case base
    then show ?thesis by simp
  next
    case (step y)
    then show ?thesis unfolding reachable_def by blast
  qed
qed

lemma drive_sound:
  "drive n s = Some t \<Longrightarrow>
     reachable s t \<and> successors t = []
     \<and> (\<forall>u. reachable s u \<and> successors u = [] \<longrightarrow> u = t)"
proof (induction n arbitrary: s)
  case 0
  then have e: "successors s = []" and t: "t = s" by (auto split: list.splits)
  have "u = s" if "reachable s u" for u
    using reachable_cases [OF that] e by (auto simp: step_successors)
  with e t show ?case by (auto simp: reachable_def)
next
  case (Suc n)
  show ?case
  proof (cases "successors s")
    case Nil
    with Suc.prems have t: "t = s" by simp
    have "u = s" if "reachable s u" for u
      using reachable_cases [OF that] Nil by (auto simp: step_successors)
    with Nil t show ?thesis by (auto simp: reachable_def)
  next
    case (Cons s' rest)
    with Suc.prems have rest: "rest = []" and d: "drive n s' = Some t"
      by (auto split: list.splits)
    from Suc.IH [OF d] have ih: "reachable s' t" "successors t = []"
      "\<forall>u. reachable s' u \<and> successors u = [] \<longrightarrow> u = t" by blast+
    from Cons rest have st: "step s s'" by (simp add: step_successors)
    from st ih(1) have r: "reachable s t"
      unfolding reachable_def by (rule converse_rtranclp_into_rtranclp)
    have "u = t" if "reachable s u" and "successors u = []" for u
    proof -
      from reachable_cases [OF that(1)] show ?thesis
      proof
        assume "u = s"
        with that(2) Cons show ?thesis by simp
      next
        assume "\<exists>x. step s x \<and> reachable x u"
        then obtain x where "step s x" "reachable x u" by blast
        with Cons rest have "reachable s' u" by (simp add: step_successors)
        with ih(3) that(2) show ?thesis by blast
      qed
    qed
    with r ih(2) show ?thesis by blast
  qed
qed

lemma drive_confluent:
  "drive n s = Some t \<Longrightarrow> reachable s u \<Longrightarrow> reachable u t"
proof (induction n arbitrary: s)
  case 0
  then have e: "successors s = []" and t: "t = s" by (auto split: list.splits)
  from reachable_cases [OF "0.prems"(2)] e have "u = s" by (auto simp: step_successors)
  with t show ?case by (simp add: reachable_def)
next
  case (Suc n)
  show ?case
  proof (cases "successors s")
    case Nil
    with Suc.prems have t: "t = s" by simp
    from reachable_cases [OF Suc.prems(2)] Nil have "u = s" by (auto simp: step_successors)
    with t show ?thesis by (simp add: reachable_def)
  next
    case (Cons s' rest)
    with Suc.prems have rest: "rest = []" and d: "drive n s' = Some t"
      by (auto split: list.splits)
    from reachable_cases [OF Suc.prems(2)] show ?thesis
    proof
      assume "u = s"
      with drive_sound [OF Suc.prems(1)] show ?thesis by simp
    next
      assume "\<exists>x. step s x \<and> reachable x u"
      then obtain x where "step s x" "reachable x u" by blast
      with Cons rest have "reachable s' u" by (simp add: step_successors)
      with d show ?thesis by (rule Suc.IH)
    qed
  qed
qed

subsection \<open>Helper lemmas: graphs that are ready for a run\<close>

text \<open>
  The graphs that \<^verbatim>\<open>makeTaskNode\<close> and \<^verbatim>\<open>setParent\<close> build are ready for a run, as long as no
  counter overflows; \<^verbatim>\<open>setParent\<close> adds exactly one descendant edge, from the parent to the
  child; and after a run that has emptied the queue of the pool, \<^verbatim>\<open>reset\<close> makes the graph
  ready for the next run.
\<close>

lemma registrations_nodes:
  "registrations g c = (\<Sum>n \<leftarrow> mNodes g. count_list (mDescendantArguments n) c)"
proof -
  have "map (\<lambda>p. f (xs ! p)) [0..<length xs] = map f xs" for f :: "('a, 'b) TaskNode \<Rightarrow> nat" and xs
    by (rule nth_equalityI) simp_all
  from this [of "\<lambda>n. count_list (mDescendantArguments n) c" "mNodes g"]
  show ?thesis by (simp add: registrations_def)
qed

lemma count_list_zero: "c \<notin> set xs \<Longrightarrow> count_list xs c = 0"
  by (induction xs) auto

lemma armed_new: "armed TaskGraph_new"
  by (simp add: armed_def TaskGraph_new_def Queue_new_def)

lemma armed_makeTaskNode:
  assumes "armed g" and "arity < 2 ^ 64"
  shows "armed (snd (makeTaskNode g xi_task arity copyable xi_name))"
proof -
  let ?n = "TaskNode_new xi_task arity copyable xi_name :: ('a, 'b) TaskNode"
  let ?g = "snd (makeTaskNode g xi_task arity copyable xi_name)"
  have g: "mNodes ?g = mNodes g @ [?n]" "mPool ?g = mPool g" "mCompletedTasks ?g = mCompletedTasks g"
    by (simp_all add: makeTaskNode_def)
  have n: "mDescendantArguments ?n = []" "Args_size ?n = arity" "mPendingCount ?n = of_nat arity"
    by (simp_all add: TaskNode_new_def)
  have r: "registrations ?g c = registrations g c" for c
    by (simp add: registrations_nodes g n)
  from assms(1) have v: "\<forall>p < length (mNodes g). \<forall>c \<in> set (mDescendantArguments (mNodes g ! p)). c < length (mNodes g)"
    by (simp add: armed_def)
  have "length (mNodes g) \<notin> set (mDescendantArguments m)" if "m \<in> set (mNodes g)" for m
  proof -
    from that obtain i where "i < length (mNodes g)" "m = mNodes g ! i"
      by (auto simp: in_set_conv_nth)
    with v have "\<forall>c \<in> set (mDescendantArguments m). c < length (mNodes g)" by simp
    then show ?thesis by auto
  qed
  then have "(\<Sum>m \<leftarrow> mNodes g. count_list (mDescendantArguments m) (length (mNodes g))) = 0"
    by (simp add: count_list_zero)
  then have r0: "registrations g (length (mNodes g)) = 0" by (simp add: registrations_nodes)
  from assms(2) have u: "unat (of_nat arity :: 64 word) = arity" by (simp add: unat_of_nat)
  show ?thesis
    unfolding armed_def g r
  proof (intro conjI allI impI ballI)
    fix c assume "c < length (mNodes g @ [?n])"
    then consider "c < length (mNodes g)" | "c = length (mNodes g)" by fastforce
    then show "unat (mPendingCount ((mNodes g @ [?n]) ! c)) = Args_size ((mNodes g @ [?n]) ! c) + registrations g c"
    proof cases
      case 1
      with assms(1) show ?thesis by (simp add: armed_def nth_append)
    next
      case 2
      with r0 u show ?thesis by (simp add: n)
    qed
  next
    fix p c assume p: "p < length (mNodes g @ [?n])" and c: "c \<in> set (mDescendantArguments ((mNodes g @ [?n]) ! p))"
    from p consider "p < length (mNodes g)" | "p = length (mNodes g)" by fastforce
    then show "c < length (mNodes g @ [?n])"
    proof cases
      case 1
      with c have "c \<in> set (mDescendantArguments (mNodes g ! p))" by (simp add: nth_append)
      with v 1 have "c < length (mNodes g)" by blast
      then show ?thesis by simp
    next
      case 2
      with c show ?thesis by (simp add: n)
    qed
  next
    from assms(1) show "mQueue (mPool g) = []" "mCompletedTasks g = 0" by (simp_all add: armed_def)
  qed
qed

lemma setParent_fields:
  assumes "this < length (mNodes g)" and "xi_parent < length (mNodes g)"
  shows "length (mNodes (setParent g this xi_parent)) = length (mNodes g)"
    and "mPool (setParent g this xi_parent) = mPool g"
    and "mCompletedTasks (setParent g this xi_parent) = mCompletedTasks g"
    and "\<And>c. c < length (mNodes g) \<Longrightarrow>
           mPendingCount (mNodes (setParent g this xi_parent) ! c)
             = (if c = this then mPendingCount (mNodes g ! c) + 1 else mPendingCount (mNodes g ! c))
           \<and> mParentCount (mNodes (setParent g this xi_parent) ! c)
             = (if c = this then mParentCount (mNodes g ! c) + 1 else mParentCount (mNodes g ! c))
           \<and> Args_size (mNodes (setParent g this xi_parent) ! c) = Args_size (mNodes g ! c)
           \<and> mDescendantArguments (mNodes (setParent g this xi_parent) ! c)
             = (if c = xi_parent then mDescendantArguments (mNodes g ! c) @ [this]
                else mDescendantArguments (mNodes g ! c))
           \<and> mDescendants (mNodes (setParent g this xi_parent) ! c)
             = (if c = xi_parent then mDescendants (mNodes g ! c) @ [this]
                else mDescendants (mNodes g ! c))"
  using assms
  by (simp_all add: setParent_def Let_def nth_list_update updateParentCount_def addChild_def)

lemma registrations_setParent:
  assumes t: "this < length (mNodes g)" and p: "xi_parent < length (mNodes g)"
  shows "registrations (setParent g this xi_parent) c = registrations g c + (if c = this then 1 else 0)"
proof -
  let ?g = "setParent g this xi_parent"
  note F = setParent_fields [OF t p]
  have "map mDescendantArguments (mNodes ?g)
      = (map mDescendantArguments (mNodes g))[xi_parent := mDescendantArguments (mNodes g ! xi_parent) @ [this]]"
    by (rule nth_equalityI) (simp_all add: F nth_list_update)
  moreover have "(\<Sum>n \<leftarrow> mNodes ?g. count_list (mDescendantArguments n) c)
      = (\<Sum>l \<leftarrow> map mDescendantArguments (mNodes ?g). count_list l c)"
    by (simp add: o_def)
  ultimately have "(\<Sum>n \<leftarrow> mNodes ?g. count_list (mDescendantArguments n) c)
      = (\<Sum>l \<leftarrow> (map mDescendantArguments (mNodes g))[xi_parent := mDescendantArguments (mNodes g ! xi_parent) @ [this]].
           count_list l c)"
    by (simp only:)
  moreover have "(\<Sum>l \<leftarrow> (map mDescendantArguments (mNodes g))[xi_parent := mDescendantArguments (mNodes g ! xi_parent) @ [this]].
           count_list l c) + count_list (map mDescendantArguments (mNodes g) ! xi_parent) c
      = (\<Sum>l \<leftarrow> map mDescendantArguments (mNodes g). count_list l c)
        + count_list (mDescendantArguments (mNodes g ! xi_parent) @ [this]) c"
    using p by (intro sum_list_update_add) simp
  ultimately show ?thesis
    using p by (simp add: registrations_nodes o_def)
qed

lemma armed_setParent:
  assumes a: "armed g" and t: "this < length (mNodes g)" and p: "xi_parent < length (mNodes g)"
    and o: "unat (mPendingCount (mNodes g ! this)) + 1 < 2 ^ 64"
  shows "armed (setParent g this xi_parent)"
proof -
  note F = setParent_fields [OF t p]
  from o have u: "unat (mPendingCount (mNodes g ! this) + 1) = unat (mPendingCount (mNodes g ! this)) + 1"
    using unat_add_lem [of "mPendingCount (mNodes g ! this)" 1] by simp
  show ?thesis
    unfolding armed_def F(1-3) registrations_setParent [OF t p]
  proof (intro conjI allI impI ballI)
    fix c assume c: "c < length (mNodes g)"
    with a have "unat (mPendingCount (mNodes g ! c)) = Args_size (mNodes g ! c) + registrations g c"
      by (simp add: armed_def)
    with u show "unat (mPendingCount (mNodes (setParent g this xi_parent) ! c))
        = Args_size (mNodes (setParent g this xi_parent) ! c)
          + (registrations g c + (if c = this then 1 else 0))"
      by (auto simp: F(4) [OF c])
  next
    fix q c assume q: "q < length (mNodes g)"
      and c: "c \<in> set (mDescendantArguments (mNodes (setParent g this xi_parent) ! q))"
    from a q have "\<forall>c \<in> set (mDescendantArguments (mNodes g ! q)). c < length (mNodes g)"
      by (simp add: armed_def)
    with c t show "c < length (mNodes g)"
      by (auto simp: F(4) [OF q] split: if_splits)
  next
    from a show "mQueue (mPool g) = []" "mCompletedTasks g = 0" by (simp_all add: armed_def)
  qed
qed

lemma descendant_edges_setParent:
  assumes t: "this < length (mNodes g)" and p: "xi_parent < length (mNodes g)"
  shows "descendant_edges (setParent g this xi_parent) = insert (xi_parent, this) (descendant_edges g)"
proof -
  note F = setParent_fields [OF t p]
  have "set (descendantsOf (setParent g this xi_parent) u)
      = (if u = xi_parent then insert this (set (descendantsOf g u)) else set (descendantsOf g u))" for u
    using p by (cases "u < length (mNodes g)") (simp_all add: descendantsOf_def F)
  then show ?thesis
    by (auto simp: descendant_edges_def split: if_splits)
qed

lemma descendant_edges_makeTaskNode:
  "descendant_edges (snd (makeTaskNode g xi_task arity copyable xi_name)) = descendant_edges g"
proof -
  have "descendantsOf (snd (makeTaskNode g xi_task arity copyable xi_name)) u = descendantsOf g u" for u
    by (simp add: descendantsOf_def makeTaskNode_def nth_append TaskNode_new_def)
  then show ?thesis by (simp add: descendant_edges_def)
qed

lemma reset_fields:
  "registrations (reset g) c = registrations g c"
  "length (mNodes (reset g)) = length (mNodes g)"
  by (simp_all add: registrations_nodes reset_def TaskNode_reset_def o_def)

lemma armed_reset:
  assumes "\<forall>c < length (mNodes g).
             unat (mParentCount (mNodes g ! c)) = Args_size (mNodes g ! c) + registrations g c"
    and "\<forall>p < length (mNodes g). \<forall>c \<in> set (mDescendantArguments (mNodes g ! p)). c < length (mNodes g)"
    and "mQueue (mPool g) = []"
  shows "armed (reset g)"
  using assms unfolding armed_def reset_fields
  by (simp add: reset_def TaskNode_reset_def)

lemma invoke_task_parentCount:
  "invoke_task n w = Inr (n', w') \<Longrightarrow> mParentCount n' = mParentCount n"
  by (auto simp: invoke_task_def Let_def split: TaskCallback.splits if_splits prod.splits)

lemma main_push_parentCount:
  "main_push s = Some s' \<Longrightarrow> mParentCount (mNodes (graph s') ! c) = mParentCount (mNodes (graph s) ! c)"
  by (auto simp: main_push_def executeSingleNode_def split: list.splits)

lemma worker_step_parentCount:
  assumes "worker_step s k = Some s'"
  shows "mParentCount (mNodes (graph s') ! c) = mParentCount (mNodes (graph s) ! c)"
proof (cases "threads s ! k")
  case Idle
  with assms show ?thesis
    by (auto simp: worker_step_def pop_def split: list.splits)
next
  case (Executing n)
  with assms have n: "n < length (mNodes (graph s))"
    by (simp add: worker_step_def split: if_splits)
  show ?thesis
  proof (cases "invoke_task (mNodes (graph s) ! n) (world s)")
    case (Inl e)
    with assms Executing n show ?thesis by (auto simp: worker_step_def)
  next
    case (Inr r)
    obtain n' w' where r: "r = (n', w')" by (cases r)
    from invoke_task_parentCount [OF Inr [unfolded r]] assms Executing n Inr r show ?thesis
      by (cases "c = n") (auto simp: worker_step_def)
  qed
next
  case (Notifying n cs)
  show ?thesis
  proof (cases cs)
    case Nil
    with assms Notifying show ?thesis
      by (auto simp: worker_step_def onSingleNodeCompleted_def)
  next
    case (Cons d ds)
    with assms Notifying have d: "d < length (mNodes (graph s))"
      by (simp add: worker_step_def split: if_splits)
    with assms Notifying Cons have "mNodes (graph s') = mNodes (decrementPending (graph s) d)"
      by (auto simp: worker_step_def Let_def)
    with d show ?thesis
      by (cases "c = d") (simp_all add: decrementPending_def)
  qed
next
  case (Submitting n c' cs)
  with assms show ?thesis by (auto simp: worker_step_def executeSingleNode_def)
qed

lemma reachable_parentCount:
  "reachable s0 s \<Longrightarrow> mParentCount (mNodes (graph s) ! c) = mParentCount (mNodes (graph s0) ! c)"
  unfolding reachable_def
proof (induction rule: rtranclp_induct)
  case base
  then show ?case by simp
next
  case (step y z)
  from step.hyps(2) have "mParentCount (mNodes (graph z) ! c) = mParentCount (mNodes (graph y) ! c)"
    unfolding step_def
  proof (elim disjE exE conjE)
    assume "main_push y = Some z"
    then show ?thesis by (rule main_push_parentCount)
  next
    fix k assume "worker_step y k = Some z"
    then show ?thesis by (rule worker_step_parentCount)
  qed
  with step.IH show ?case by simp
qed

lemma sum_list_map_cong:
  fixes f :: "'b \<Rightarrow> nat"
  assumes "map h xs = map h ys"
  shows "(\<Sum>x \<leftarrow> xs. f (h x)) = (\<Sum>y \<leftarrow> ys. f (h y))"
proof -
  have "map (\<lambda>x. f (h x)) xs = map f (map h xs)" by simp
  also have "\<dots> = map f (map h ys)" by (simp only: assms)
  also have "\<dots> = map (\<lambda>x. f (h x)) ys" by simp
  finally show ?thesis by simp
qed

lemma armed_reset_after_run:
  assumes a: "armed g"
    and pc: "\<forall>c < length (mNodes g). mParentCount (mNodes g ! c) = mPendingCount (mNodes g ! c)"
    and r: "reachable (execute_begin g w xi_count) s"
    and q: "mQueue (mPool (graph s)) = []"
  shows "armed (reset (graph s))"
proof (rule armed_reset)
  have inv: "run_inv g s" using a r by (rule run_inv_reachable)
  note D = run_invD [OF inv]
  have "map mDescendantArguments (mNodes (graph s)) = map mDescendantArguments (mNodes g)"
    by (rule nth_equalityI) (simp_all add: D(1,2))
  then have reg: "registrations (graph s) c = registrations g c" for c
    unfolding registrations_nodes by (rule sum_list_map_cong)
  show "\<forall>c < length (mNodes (graph s)).
          unat (mParentCount (mNodes (graph s) ! c))
            = Args_size (mNodes (graph s) ! c) + registrations (graph s) c"
  proof (intro allI impI)
    fix c assume "c < length (mNodes (graph s))"
    with D(1) have c: "c < length (mNodes g)" by simp
    have "mParentCount (mNodes (graph s) ! c) = mParentCount (mNodes g ! c)"
      using reachable_parentCount [OF r, of c] by (simp add: execute_begin_def)
    with pc c a D(3) [OF c] show "unat (mParentCount (mNodes (graph s) ! c))
            = Args_size (mNodes (graph s) ! c) + registrations (graph s) c"
      by (simp add: armed_def reg)
  qed
  from a D(1,2) show "\<forall>p < length (mNodes (graph s)).
      \<forall>c \<in> set (mDescendantArguments (mNodes (graph s) ! p)). c < length (mNodes (graph s))"
    by (simp add: armed_def)
  show "mQueue (mPool (graph s)) = []" by (rule q)
qed

subsection \<open>Helper lemmas: the runs of the examples\<close>

lemma armed_list_all:
  "armed g \<longleftrightarrow>
     list_all (\<lambda>c. unat (mPendingCount (mNodes g ! c)) = Args_size (mNodes g ! c) + registrations g c)
       [0..<length (mNodes g)]
     \<and> list_all (\<lambda>p. list_all (\<lambda>c. c < length (mNodes g)) (mDescendantArguments (mNodes g ! p)))
       [0..<length (mNodes g)]
     \<and> mQueue (mPool g) = []
     \<and> mCompletedTasks g = 0"
  by (auto simp: armed_def list_all_iff)

lemma armed_Test1_graph: "armed Test1_graph"
  by (simp add: armed_list_all registrations_def Test1_graph_eq Queue_new_def upt_rec)

lemma Test1_run:
  "map_option (\<lambda>t. (world t, initialNodes t, submitted t, triggered t, started t, finished t,
                      underflow t, mCompletedTasks (graph t), length (mNodes (graph t))))
     (drive (Suc (Suc (Suc (Suc (Suc (Suc (Suc (Suc (Suc (Suc (Suc (Suc (Suc (Suc (Suc (Suc (Suc (Suc (Suc (Suc (Suc (0)))))))))))))))))))))) (execute_begin Test1_graph [] (Suc 0)))
   = Some (''task1->task3->task2->task4'', [], [0, 2, 1, 3], [2, 1, 3], [0, 2, 1, 3], [0, 2, 1, 3],
           False, 4, 4)"
  by (simp add: execute_begin_def Test1_graph_eq successors_def main_push_def worker_step_def
      map_filter_def executeSingleNode_def push_def pop_def Queue_new_def invoke_task_def decrementPending_def
      onSingleNodeCompleted_def getPendingCount_def Let_def)

lemma argument_example_eq:
  "argument_example =
     \<lparr>mPool = Queue_new, mNodes =
       [\<lparr>mName = [], mDescendants = [1], mTask = VoidTask (\<lambda>w. w), Args_size = 0,
         ReturnType_copyable = False, mResult = None, mPendingCount = 0, mParentCount = 0,
         mDescendantTasks = [], mDescendantArguments = [1]\<rparr>,
        \<lparr>mName = [], mDescendants = [], mTask = VoidTask (\<lambda>w. w), Args_size = 1,
         ReturnType_copyable = False, mResult = None, mPendingCount = 2, mParentCount = 2,
         mDescendantTasks = [], mDescendantArguments = []\<rparr>], mCompletedTasks = 0\<rparr>"
  unfolding argument_example_def makeTaskNode_def TaskGraph_new_def TaskNode_new_def
  apply (simp only: prod.case TaskGraph.simps list.size append.simps)
  apply (simp add: setParent_explicit updateParentCount_def addChild_def)
  done

lemma armed_argument_example: "armed argument_example"
  by (simp add: armed_list_all registrations_def argument_example_eq Queue_new_def upt_rec)

lemma argument_run:
  "map_option (\<lambda>t. (submitted t, started t, finished t,
                      mCompletedTasks (graph t), length (mNodes (graph t)),
                      mPendingCount (mNodes (graph t) ! Suc 0)))
     (drive (Suc (Suc (Suc (Suc (Suc (0)))))) (execute_begin argument_example () (Suc 0)))
   = Some ([0], [0], [0], 1, 2, 1)"
  by (simp add: execute_begin_def argument_example_eq successors_def main_push_def worker_step_def
      map_filter_def executeSingleNode_def push_def pop_def Queue_new_def invoke_task_def decrementPending_def
      onSingleNodeCompleted_def getPendingCount_def Let_def)

lemma Test1_end:
  obtains t where "drive (Suc (Suc (Suc (Suc (Suc (Suc (Suc (Suc (Suc (Suc (Suc (Suc (Suc (Suc (Suc (Suc (Suc (Suc (Suc (Suc (Suc (0)))))))))))))))))))))) (execute_begin Test1_graph [] (Suc 0)) = Some t"
    and "world t = ''task1->task3->task2->task4''" and "initialNodes t = []"
    and "submitted t = [0, 2, 1, 3]" and "triggered t = [2, 1, 3]" and "started t = [0, 2, 1, 3]"
    and "finished t = [0, 2, 1, 3]" and "\<not> underflow t" and "mCompletedTasks (graph t) = 4"
    and "length (mNodes (graph t)) = 4"
proof -
  from Test1_run obtain t where d: "drive (Suc (Suc (Suc (Suc (Suc (Suc (Suc (Suc (Suc (Suc (Suc (Suc (Suc (Suc (Suc (Suc (Suc (Suc (Suc (Suc (Suc (0)))))))))))))))))))))) (execute_begin Test1_graph [] (Suc 0)) = Some t"
    and e: "(world t, initialNodes t, submitted t, triggered t, started t, finished t,
             underflow t, mCompletedTasks (graph t), length (mNodes (graph t)))
          = (''task1->task3->task2->task4'', [], [0, 2, 1, 3], [2, 1, 3], [0, 2, 1, 3], [0, 2, 1, 3],
             False, 4, 4)"
    unfolding map_option_eq_Some by blast
  from e have "world t = ''task1->task3->task2->task4''" "initialNodes t = []"
    "submitted t = [0, 2, 1, 3]" "triggered t = [2, 1, 3]" "started t = [0, 2, 1, 3]"
    "finished t = [0, 2, 1, 3]" "\<not> underflow t" "mCompletedTasks (graph t) = 4"
    "length (mNodes (graph t)) = 4"
    by simp_all
  with d that show thesis by blast
qed

lemma argument_end:
  obtains t where "drive (Suc (Suc (Suc (Suc (Suc (0)))))) (execute_begin argument_example () (Suc 0)) = Some t"
    and "submitted t = [0]" and "started t = [0]" and "finished t = [0]"
    and "mCompletedTasks (graph t) = 1" and "length (mNodes (graph t)) = 2"
    and "mPendingCount (mNodes (graph t) ! Suc 0) = 1"
proof -
  from argument_run obtain t where d: "drive (Suc (Suc (Suc (Suc (Suc (0)))))) (execute_begin argument_example () (Suc 0)) = Some t"
    and e: "(submitted t, started t, finished t, mCompletedTasks (graph t), length (mNodes (graph t)),
             mPendingCount (mNodes (graph t) ! Suc 0))
          = ([0], [0], [0], 1, 2, 1)"
    unfolding map_option_eq_Some by blast
  from e have "submitted t = [0]" "started t = [0]" "finished t = [0]"
    "mCompletedTasks (graph t) = 1" "length (mNodes (graph t)) = 2"
    "mPendingCount (mNodes (graph t) ! Suc 0) = 1"
    by simp_all
  with d that show thesis by blast
qed

subsection \<open>Helper lemmas: the steps of a run\<close>

text \<open>
  The seven kinds of steps, and what no step changes: the number of nodes and of threads,
  the callables, and the result consumers.
\<close>

lemma step_cases:
  assumes "step s s'"
  obtains
    (push) n ns where "initialNodes s = n # ns"
      "s' = s\<lparr>graph := executeSingleNode (graph s) n, initialNodes := ns,
              submitted := submitted s @ [n]\<rparr>"
  | (pop) k n q where "k < length (threads s)" "threads s ! k = Idle"
      "mQueue (mPool (graph s)) = n # q"
      "s' = s\<lparr>graph := (graph s)\<lparr>mPool := (mPool (graph s))\<lparr>mQueue := q\<rparr>\<rparr>,
              threads := (threads s)[k := Executing n]\<rparr>"
  | (fail) k n e where "k < length (threads s)" "threads s ! k = Executing n"
      "n < length (mNodes (graph s))" "invoke_task (mNodes (graph s) ! n) (world s) = Inl e"
      "s' = s\<lparr>threads := (threads s)[k := Idle], failed := failed s @ [n]\<rparr>"
  | (invoke) k n n' w' where "k < length (threads s)" "threads s ! k = Executing n"
      "n < length (mNodes (graph s))" "invoke_task (mNodes (graph s) ! n) (world s) = Inr (n', w')"
      "s' = s\<lparr>graph := (graph s)\<lparr>mNodes := (mNodes (graph s))[n := n']\<rparr>,
              world := w',
              threads := (threads s)[k := Notifying n (mDescendantArguments n')],
              started := started s @ [n]\<rparr>"
  | (complete) k n where "k < length (threads s)" "threads s ! k = Notifying n []"
      "s' = s\<lparr>graph := onSingleNodeCompleted (graph s),
              threads := (threads s)[k := Idle],
              finished := finished s @ [n]\<rparr>"
  | (notify) k n c cs where "k < length (threads s)" "threads s ! k = Notifying n (c # cs)"
      "c < length (mNodes (graph s))"
      "s' = s\<lparr>graph := decrementPending (graph s) c,
              threads := (threads s)[k := if mPendingCount (mNodes (decrementPending (graph s) c) ! c) = 0
                                          then Submitting n c cs else Notifying n cs],
              triggered := (if mPendingCount (mNodes (decrementPending (graph s) c) ! c) = 0
                            then triggered s @ [c] else triggered s),
              underflow := (underflow s \<or> mPendingCount (mNodes (graph s) ! c) = 0)\<rparr>"
  | (submit) k n c cs where "k < length (threads s)" "threads s ! k = Submitting n c cs"
      "s' = s\<lparr>graph := executeSingleNode (graph s) c,
              threads := (threads s)[k := Notifying n cs],
              submitted := submitted s @ [c]\<rparr>"
proof -
  from assms consider "main_push s = Some s'" | k where "k < length (threads s)" "worker_step s k = Some s'"
    unfolding step_def by blast
  then show thesis
  proof cases
    case 1
    then obtain n ns where "initialNodes s = n # ns"
      "s' = s\<lparr>graph := executeSingleNode (graph s) n, initialNodes := ns,
              submitted := submitted s @ [n]\<rparr>"
      by (auto simp: main_push_def split: list.splits)
    then show thesis by (rule push)
  next
    case 2
    note k = 2(1) and st = 2(2)
    show thesis
    proof (cases "threads s ! k")
      case Idle
      with st obtain n q where "mQueue (mPool (graph s)) = n # q"
        "s' = s\<lparr>graph := (graph s)\<lparr>mPool := (mPool (graph s))\<lparr>mQueue := q\<rparr>\<rparr>,
                threads := (threads s)[k := Executing n]\<rparr>"
        by (auto simp: worker_step_def pop_def split: list.splits)
      with k Idle show thesis by (rule pop)
    next
      case (Executing n)
      with st have n: "n < length (mNodes (graph s))"
        by (simp add: worker_step_def split: if_splits)
      show thesis
      proof (cases "invoke_task (mNodes (graph s) ! n) (world s)")
        case (Inl e)
        with st Executing n have "s' = s\<lparr>threads := (threads s)[k := Idle], failed := failed s @ [n]\<rparr>"
          by (simp add: worker_step_def)
        with k Executing n Inl show thesis by (rule fail)
      next
        case (Inr r)
        obtain n' w' where r: "r = (n', w')" by (cases r)
        with st Executing n Inr have "s' = s\<lparr>graph := (graph s)\<lparr>mNodes := (mNodes (graph s))[n := n']\<rparr>,
                        world := w',
                        threads := (threads s)[k := Notifying n (mDescendantArguments n')],
                        started := started s @ [n]\<rparr>"
          by (simp add: worker_step_def)
        with k Executing n Inr [unfolded r] show thesis by (rule invoke)
      qed
    next
      case (Notifying n cs)
      show thesis
      proof (cases cs)
        case Nil
        with st Notifying have "s' = s\<lparr>graph := onSingleNodeCompleted (graph s),
                        threads := (threads s)[k := Idle],
                        finished := finished s @ [n]\<rparr>"
          by (simp add: worker_step_def)
        with k Notifying [unfolded Nil] show thesis by (rule complete)
      next
        case (Cons c cs')
        with st Notifying have c: "c < length (mNodes (graph s))"
          by (simp add: worker_step_def split: if_splits)
        with st Notifying Cons have "s' = s\<lparr>graph := decrementPending (graph s) c,
                        threads := (threads s)[k := if mPendingCount (mNodes (decrementPending (graph s) c) ! c) = 0
                                                    then Submitting n c cs' else Notifying n cs'],
                        triggered := (if mPendingCount (mNodes (decrementPending (graph s) c) ! c) = 0
                                      then triggered s @ [c] else triggered s),
                        underflow := (underflow s \<or> mPendingCount (mNodes (graph s) ! c) = 0)\<rparr>"
          by (simp add: worker_step_def Let_def)
        with k Notifying [unfolded Cons] c show thesis by (rule notify)
      qed
    next
      case (Submitting n c cs)
      with st have "s' = s\<lparr>graph := executeSingleNode (graph s) c,
                        threads := (threads s)[k := Notifying n cs],
                        submitted := submitted s @ [c]\<rparr>"
        by (simp add: worker_step_def)
      with k Submitting show thesis by (rule submit)
    qed
  qed
qed

lemma invoke_task_static:
  assumes "invoke_task n w = Inr (n', w')"
  shows "mTask n' = mTask n" "ReturnType_copyable n' = ReturnType_copyable n"
    "mDescendantTasks n' = mDescendantTasks n"
  using assms
  by (auto simp: invoke_task_def Let_def split: TaskCallback.splits if_splits prod.splits)

lemma invoke_task_Inl:
  "invoke_task n w = Inl e \<Longrightarrow> 1 < length (mDescendantTasks n)"
  by (auto simp: invoke_task_def Let_def split: TaskCallback.splits if_splits prod.splits)

lemma step_static:
  assumes "step s s'"
  shows "length (mNodes (graph s')) = length (mNodes (graph s))
      \<and> mTask (mNodes (graph s') ! i) = mTask (mNodes (graph s) ! i)
      \<and> ReturnType_copyable (mNodes (graph s') ! i) = ReturnType_copyable (mNodes (graph s) ! i)
      \<and> mDescendantTasks (mNodes (graph s') ! i) = mDescendantTasks (mNodes (graph s) ! i)
      \<and> length (threads s') = length (threads s)"
  using assms
proof (cases rule: step_cases)
  case (push n ns)
  then show ?thesis by (simp add: executeSingleNode_def)
next
  case (pop k n q)
  then show ?thesis by simp
next
  case (fail k n e)
  then show ?thesis by simp
next
  case (invoke k n n' w')
  from invoke_task_static [OF invoke(4)] invoke(3,5) show ?thesis
    by (cases "i = n") simp_all
next
  case (complete k n)
  then show ?thesis by (simp add: onSingleNodeCompleted_def)
next
  case (notify k n c cs)
  then show ?thesis by (cases "i = c") (simp_all add: decrementPending_def)
next
  case (submit k n c cs)
  then show ?thesis by (simp add: executeSingleNode_def)
qed

lemma reachable_static:
  assumes "reachable s0 s"
  shows "length (mNodes (graph s)) = length (mNodes (graph s0))
      \<and> mTask (mNodes (graph s) ! i) = mTask (mNodes (graph s0) ! i)
      \<and> ReturnType_copyable (mNodes (graph s) ! i) = ReturnType_copyable (mNodes (graph s0) ! i)
      \<and> mDescendantTasks (mNodes (graph s) ! i) = mDescendantTasks (mNodes (graph s0) ! i)
      \<and> length (threads s) = length (threads s0)"
proof -
  from assms have "step\<^sup>*\<^sup>* s0 s" by (simp add: reachable_def)
  then show ?thesis
  proof (induction rule: rtranclp_induct)
    case base
    then show ?case by simp
  next
    case (step y z)
    with step_static [OF step.hyps(2), of i] show ?case by simp
  qed
qed

subsection \<open>Helper lemmas: the order of a run\<close>

lemma invoke_task_same_effect:
  assumes "mTask a = mTask b" and "ReturnType_copyable a = ReturnType_copyable b"
    and "mDescendantTasks a = mDescendantTasks b" and "invoke_task a w = Inr (a', w')"
  shows "\<exists>b'. invoke_task b w = Inr (b', w')"
  using assms
  by (auto simp: invoke_task_def Let_def split: TaskCallback.splits if_splits prod.splits)

lemma thread_after_update:
  assumes "t \<in> set (ts[k := t'])"
  shows "t = t' \<or> t \<in> set ts"
  using assms set_update_subset_insert [of ts k t'] by auto

lemma executing_submitted:
  assumes inv: "run_inv g s" and k: "k < length (threads s)" and tk: "threads s ! k = Executing n"
  shows "n \<in># claimed s"
proof -
  note D = run_invD [OF inv]
  from k tk have "Executing n \<in> set (threads s)" by (metis nth_mem)
  then have "n \<in># (\<Sum>t \<leftarrow> threads s. exec_of t)"
    unfolding in_sum_list_mset by (intro bexI [of _ "Executing n"]) simp_all
  then have "n \<in># mset (submitted s)" by (simp add: D(9))
  then show ?thesis by (simp add: claimed_def)
qed

lemma order_inv_step:
  assumes a: "armed g" and nc: "no_consumers g"
    and r: "reachable (execute_begin g w xi_count) y" and st: "step y z"
    and inv: "order_inv g w y"
  shows "order_inv g w z"
proof -
  have ri: "run_inv g y" using a r by (rule run_inv_reachable)
  note D = run_invD [OF ri]
  from inv have f: "failed y = []" and wo: "world y = fold (task_effect g) (started y) w"
    and pa: "\<And>i p. i < length (started y) \<Longrightarrow> p < length (mNodes g) \<Longrightarrow>
               started y ! i \<in> set (mDescendantArguments (mNodes g ! p)) \<Longrightarrow> p \<in> set (take i (started y))"
    and no: "\<And>t n cs. t \<in> set (threads y) \<Longrightarrow> t = Notifying n cs \<Longrightarrow>
               \<exists>d. mDescendantArguments (mNodes g ! n) = d @ cs"
    and su: "\<And>t n c cs. t \<in> set (threads y) \<Longrightarrow> t = Submitting n c cs \<Longrightarrow>
               \<exists>d. mDescendantArguments (mNodes g ! n) = d @ c # cs"
    unfolding order_inv_def by blast+
  have stat: "mTask (mNodes (graph y) ! i) = mTask (mNodes g ! i)
      \<and> ReturnType_copyable (mNodes (graph y) ! i) = ReturnType_copyable (mNodes g ! i)
      \<and> mDescendantTasks (mNodes (graph y) ! i) = mDescendantTasks (mNodes g ! i)" for i
    using reachable_static [OF r, of i] by (simp add: execute_begin_def)
  have frame: "order_inv g w z"
    if "failed z = []" "world z = world y" "started z = started y"
      and "\<And>t. t \<in> set (threads z) \<Longrightarrow> t \<in> set (threads y) \<or> t = Idle \<or> (\<exists>n. t = Executing n)
             \<or> (\<exists>n cs. t = Notifying n cs \<and> (\<exists>d. mDescendantArguments (mNodes g ! n) = d @ cs))
             \<or> (\<exists>n c cs. t = Submitting n c cs \<and> (\<exists>d. mDescendantArguments (mNodes g ! n) = d @ c # cs))"
  proof -
    have "(\<forall>n cs. t = Notifying n cs \<longrightarrow> (\<exists>d. mDescendantArguments (mNodes g ! n) = d @ cs))
        \<and> (\<forall>n c cs. t = Submitting n c cs \<longrightarrow> (\<exists>d. mDescendantArguments (mNodes g ! n) = d @ c # cs))"
      if "t \<in> set (threads z)" for t
      using \<open>\<And>t. t \<in> set (threads z) \<Longrightarrow> _\<close> [OF that] no [of t] su [of t] by auto
    with that(1-3) wo pa show ?thesis unfolding order_inv_def by simp
  qed
  from st show ?thesis
  proof (cases rule: step_cases)
    case (push n ns)
    show ?thesis by (rule frame) (simp_all add: push f)
  next
    case (pop k n q)
    show ?thesis
    proof (rule frame)
      fix t assume "t \<in> set (threads z)"
      then have "t \<in> set ((threads y)[k := Executing n])" by (simp add: pop)
      from thread_after_update [OF this]
      show "t \<in> set (threads y) \<or> t = Idle \<or> (\<exists>n. t = Executing n)
             \<or> (\<exists>n cs. t = Notifying n cs \<and> (\<exists>d. mDescendantArguments (mNodes g ! n) = d @ cs))
             \<or> (\<exists>n c cs. t = Submitting n c cs \<and> (\<exists>d. mDescendantArguments (mNodes g ! n) = d @ c # cs))"
        by blast
    qed (simp_all add: pop f)
  next
    case (fail k n e)
    from invoke_task_Inl [OF fail(4)] stat [of n]
    have "1 < length (mDescendantTasks (mNodes g ! n))" by simp
    moreover from fail(3) D(1) have "mNodes g ! n \<in> set (mNodes g)" by simp
    ultimately have False using nc by (simp add: no_consumers_def)
    then show ?thesis ..
  next
    case (invoke k n n' w')
    from invoke(3) D(1) have n0: "n < length (mNodes g)" by simp
    from invoke_task_same_effect [OF _ _ _ invoke(4), of "mNodes g ! n"] stat [of n]
    have "\<exists>b'. invoke_task (mNodes g ! n) (world y) = Inr (b', w')" by simp
    then have e: "task_effect g n (world y) = w'" by (auto simp: task_effect_def)
    have ch: "mDescendantArguments n' = mDescendantArguments (mNodes g ! n)"
      using invoke_task_fields(1) [OF invoke(4)] D(2) [OF n0] by simp
    have cl: "n \<in># claimed y" using ri invoke(1,2) by (rule executing_submitted)
    have par: "p \<in> set (started y)"
      if "p < length (mNodes g)" "n \<in> set (mDescendantArguments (mNodes g ! p))" for p
      using no_debt_parents(1) [OF claimed_no_debt(1) [OF ri cl] that] .
    show ?thesis
      unfolding order_inv_def
    proof (intro conjI allI impI ballI)
      show "failed z = []" by (simp add: invoke f)
      from e have "task_effect g n (fold (task_effect g) (started y) w) = w'" by (simp only: wo)
      then show "world z = fold (task_effect g) (started z) w" by (simp add: invoke)
    next
      fix i p assume i: "i < length (started z)" and p: "p < length (mNodes g)"
        and c: "started z ! i \<in> set (mDescendantArguments (mNodes g ! p))"
      show "p \<in> set (take i (started z))"
      proof (cases "i < length (started y)")
        case True
        with c have "started y ! i \<in> set (mDescendantArguments (mNodes g ! p))"
          by (simp add: invoke nth_append)
        from pa [OF True p this] True show ?thesis by (simp add: invoke)
      next
        case False
        with i have i': "i = length (started y)" by (simp add: invoke)
        with c have "n \<in> set (mDescendantArguments (mNodes g ! p))" by (simp add: invoke)
        from par [OF p this] i' show ?thesis by (simp add: invoke)
      qed
    next
      fix t m cs assume "t \<in> set (threads z)" and t: "t = Notifying m cs"
      then have "t \<in> set ((threads y)[k := Notifying n (mDescendantArguments n')])" by (simp add: invoke)
      from thread_after_update [OF this] show "\<exists>d. mDescendantArguments (mNodes g ! m) = d @ cs"
      proof
        assume "t = Notifying n (mDescendantArguments n')"
        with t ch have "mDescendantArguments (mNodes g ! m) = [] @ cs" by auto
        then show ?thesis ..
      next
        assume "t \<in> set (threads y)"
        then show ?thesis using t by (rule no)
      qed
    next
      fix t m c cs assume "t \<in> set (threads z)" and t: "t = Submitting m c cs"
      then have "t \<in> set ((threads y)[k := Notifying n (mDescendantArguments n')])" by (simp add: invoke)
      from thread_after_update [OF this] t have "t \<in> set (threads y)" by auto
      then show "\<exists>d. mDescendantArguments (mNodes g ! m) = d @ c # cs" using t by (rule su)
    qed
  next
    case (complete k n)
    show ?thesis
    proof (rule frame)
      fix t assume "t \<in> set (threads z)"
      then have "t \<in> set ((threads y)[k := Idle])" by (simp add: complete)
      from thread_after_update [OF this]
      show "t \<in> set (threads y) \<or> t = Idle \<or> (\<exists>n. t = Executing n)
             \<or> (\<exists>n cs. t = Notifying n cs \<and> (\<exists>d. mDescendantArguments (mNodes g ! n) = d @ cs))
             \<or> (\<exists>n c cs. t = Submitting n c cs \<and> (\<exists>d. mDescendantArguments (mNodes g ! n) = d @ c # cs))"
        by blast
    qed (simp_all add: complete f)
  next
    case (notify k n c cs)
    from notify(1,2) have "Notifying n (c # cs) \<in> set (threads y)" by (metis nth_mem)
    from no [OF this refl] obtain d where d: "mDescendantArguments (mNodes g ! n) = d @ c # cs" ..
    then have d': "mDescendantArguments (mNodes g ! n) = (d @ [c]) @ cs" by simp
    show ?thesis
    proof (rule frame)
      fix t assume "t \<in> set (threads z)"
      then have "t \<in> set ((threads y)[k := if mPendingCount (mNodes (decrementPending (graph y) c) ! c) = 0
                                          then Submitting n c cs else Notifying n cs])"
        by (simp add: notify)
      from thread_after_update [OF this] d d'
      show "t \<in> set (threads y) \<or> t = Idle \<or> (\<exists>n. t = Executing n)
             \<or> (\<exists>n cs. t = Notifying n cs \<and> (\<exists>d. mDescendantArguments (mNodes g ! n) = d @ cs))
             \<or> (\<exists>n c cs. t = Submitting n c cs \<and> (\<exists>d. mDescendantArguments (mNodes g ! n) = d @ c # cs))"
        by (cases "mPendingCount (mNodes (decrementPending (graph y) c) ! c) = 0") auto
    qed (simp_all add: notify f)
  next
    case (submit k n c cs)
    from submit(1,2) have "Submitting n c cs \<in> set (threads y)" by (metis nth_mem)
    from su [OF this refl] obtain d where "mDescendantArguments (mNodes g ! n) = d @ c # cs" ..
    then have d': "mDescendantArguments (mNodes g ! n) = (d @ [c]) @ cs" by simp
    show ?thesis
    proof (rule frame)
      fix t assume "t \<in> set (threads z)"
      then have "t \<in> set ((threads y)[k := Notifying n cs])" by (simp add: submit)
      from thread_after_update [OF this] d'
      show "t \<in> set (threads y) \<or> t = Idle \<or> (\<exists>n. t = Executing n)
             \<or> (\<exists>n cs. t = Notifying n cs \<and> (\<exists>d. mDescendantArguments (mNodes g ! n) = d @ cs))
             \<or> (\<exists>n c cs. t = Submitting n c cs \<and> (\<exists>d. mDescendantArguments (mNodes g ! n) = d @ c # cs))"
        by blast
    qed (simp_all add: submit f)
  qed
qed

lemma order_inv_reachable:
  assumes a: "armed g" and nc: "no_consumers g" and r: "reachable (execute_begin g w xi_count) s"
  shows "order_inv g w s"
proof -
  from r have "step\<^sup>*\<^sup>* (execute_begin g w xi_count) s" by (simp add: reachable_def)
  then show ?thesis
  proof (induction rule: rtranclp_induct)
    case base
    show ?case by (simp add: order_inv_def execute_begin_def)
  next
    case (step y z)
    from step.hyps(1) have "reachable (execute_begin g w xi_count) y" by (simp add: reachable_def)
    from a nc this step.hyps(2) step.IH show ?case by (rule order_inv_step)
  qed
qed

lemma single_thread:
  assumes "length ts = 1" and "k < length ts"
  shows "k = 0" and "concat (map popped ts) = popped (ts ! k)"
    and "concat (map popped (ts[k := t'])) = popped t'"
  using assms by (cases ts; simp)+

lemma fifo_step:
  assumes l: "length (threads y) = 1" and fz: "failed z = []" and st: "step y z"
    and inv: "submitted y = started y @ concat (map popped (threads y)) @ mQueue (mPool (graph y))"
  shows "submitted z = started z @ concat (map popped (threads z)) @ mQueue (mPool (graph z))"
  using st
proof (cases rule: step_cases)
  case (push n ns)
  with inv show ?thesis by (simp add: executeSingleNode_def push_def)
next
  case (pop k n q)
  from single_thread(2,3) [OF l pop(1)] pop inv show ?thesis by simp
next
  case (fail k n e)
  with fz show ?thesis by simp
next
  case (invoke k n n' w')
  from single_thread(2,3) [OF l invoke(1)] invoke inv show ?thesis by simp
next
  case (complete k n)
  from single_thread(2,3) [OF l complete(1)] complete inv show ?thesis
    by (simp add: onSingleNodeCompleted_def)
next
  case (notify k n c cs)
  from single_thread(2,3) [OF l notify(1)] notify inv show ?thesis
    by (cases "mPendingCount (mNodes (decrementPending (graph y) c) ! c) = 0")
       (simp_all add: decrementPending_def)
next
  case (submit k n c cs)
  from single_thread(2,3) [OF l submit(1)] submit inv show ?thesis
    by (simp add: executeSingleNode_def push_def)
qed

lemma fifo_reachable:
  assumes a: "armed g" and nc: "no_consumers g" and r: "reachable (execute_begin g w 1) s"
  shows "submitted s = started s @ concat (map popped (threads s)) @ mQueue (mPool (graph s))"
proof -
  from r have "step\<^sup>*\<^sup>* (execute_begin g w 1) s" by (simp add: reachable_def)
  then show ?thesis
  proof (induction rule: rtranclp_induct)
    case base
    from a show ?case by (simp add: execute_begin_def armed_def)
  next
    case (step y z)
    from step.hyps(1) have ry: "reachable (execute_begin g w 1) y" by (simp add: reachable_def)
    with step.hyps(2) have rz: "reachable (execute_begin g w 1) z" by (simp add: reachable_def)
    from reachable_static [OF ry, of 0] have l: "length (threads y) = 1"
      by (simp add: execute_begin_def)
    from order_inv_reachable [OF a nc rz] have fz: "failed z = []" by (simp add: order_inv_def)
    from l fz step.hyps(2) step.IH show ?case by (rule fifo_step)
  qed
qed

lemma one_at_a_time_step:
  assumes "one_at_a_time y" and "step y z"
  shows "one_at_a_time z"
  using assms(2)
proof (cases rule: step_cases)
  case (push n ns)
  with assms(1) show ?thesis by (simp add: one_at_a_time_def)
next
  case (pop k n q)
  with assms(1) show ?thesis by (auto simp: one_at_a_time_def)
next
  case (fail k n e)
  with assms(1) show ?thesis by (auto simp: one_at_a_time_def)
next
  case (invoke k n n' w')
  with assms(1) show ?thesis by (auto simp: one_at_a_time_def)
next
  case (complete k n)
  with assms(1) show ?thesis by (auto simp: one_at_a_time_def)
next
  case (notify k n c cs)
  with assms(1) show ?thesis by (auto simp: one_at_a_time_def)
next
  case (submit k n c cs)
  with assms(1) show ?thesis by (auto simp: one_at_a_time_def)
qed

lemma one_at_a_time_reachable:
  assumes a: "armed g" and i: "length (initialNodes (execute_begin g w 1)) \<le> 1"
    and r: "reachable (execute_begin g w 1) s"
  shows "one_at_a_time s"
proof -
  from r have "step\<^sup>*\<^sup>* (execute_begin g w 1) s" by (simp add: reachable_def)
  then show ?thesis
  proof (induction rule: rtranclp_induct)
    case base
    from a i show ?case by (simp add: one_at_a_time_def execute_begin_def armed_def)
  next
    case (step y z)
    then show ?case using one_at_a_time_step by blast
  qed
qed

lemma no_choice:
  assumes l: "length (threads s) = 1" and o: "one_at_a_time s"
    and s1: "step s s1" and s2: "step s s2"
  shows "s1 = s2"
proof (cases "initialNodes s")
  case Nil
  then have "main_push s = None" by (simp add: main_push_def)
  with s1 s2 l have "worker_step s 0 = Some s1" "worker_step s 0 = Some s2"
    by (auto simp: step_def)
  then show ?thesis by simp
next
  case (Cons n ns)
  with o have "threads s = [Idle]" "mQueue (mPool (graph s)) = []"
    by (simp_all add: one_at_a_time_def)
  then have "worker_step s 0 = None" by (simp add: worker_step_def pop_def)
  with s1 s2 l have "main_push s = Some s1" "main_push s = Some s2"
    by (auto simp: step_def)
  then show ?thesis by simp
qed

subsection \<open>Helper lemmas: graphs built through the interface\<close>









lemma stuck_single:
  assumes a: "armed g" and nc: "no_consumers g" and r: "reachable (execute_begin g w 1) s"
    and n: "\<forall>u. \<not> step s u"
  shows "threads s = [Idle] \<and> mQueue (mPool (graph s)) = [] \<and> initialNodes s = []"
proof -
  have ri: "run_inv g s" using a r by (rule run_inv_reachable)
  note D = run_invD [OF ri]
  have oi: "order_inv g w s" using a nc r by (rule order_inv_reachable)
  from reachable_static [OF r, of 0] have l: "length (threads s) = 1"
    by (simp add: execute_begin_def)
  then obtain t where ts: "threads s = [t]" by (cases "threads s") simp_all
  have i: "initialNodes s = []"
  proof (cases "initialNodes s")
    case Nil
    then show ?thesis .
  next
    case (Cons x xs)
    then have "\<exists>u. main_push s = Some u" by (simp add: main_push_def)
    with n show ?thesis by (auto simp: step_def)
  qed
  from n l have ws: "worker_step s 0 = None"
    by (cases "worker_step s 0") (auto simp: step_def)
  have "t = Idle \<and> mQueue (mPool (graph s)) = []"
  proof (cases t)
    case Idle
    with ws ts show ?thesis
      by (cases "mQueue (mPool (graph s))") (simp_all add: worker_step_def pop_def)
  next
    case (Executing m)
    with ts l have "m \<in># claimed s" by (intro executing_submitted [OF ri, of 0]) simp_all
    then have "m < length (mNodes (graph s))" using D(1) D(5) by simp
    with ws ts Executing show ?thesis
      by (simp add: worker_step_def split: sum.splits prod.splits)
  next
    case (Notifying m cs)
    show ?thesis
    proof (cases cs)
      case Nil
      with ws ts Notifying show ?thesis by (simp add: worker_step_def)
    next
      case (Cons c cs')
      from ts Notifying have "m \<in># (\<Sum>t \<leftarrow> threads s. noti_of t)" by simp
      then have "m \<in># mset (started s)" by (simp add: D(10))
      then have m: "m < length (mNodes g)" using D(11) by simp
      from oi ts Notifying Cons obtain d where "mDescendantArguments (mNodes g ! m) = d @ c # cs'"
        unfolding order_inv_def by auto
      with a m have "c < length (mNodes g)" unfolding armed_def by auto
      then have "c < length (mNodes (graph s))" by (simp add: D(1))
      with ws ts Notifying Cons show ?thesis by (simp add: worker_step_def Let_def)
    qed
  next
    case (Submitting m c cs)
    with ws ts show ?thesis by (simp add: worker_step_def)
  qed
  with ts i show ?thesis by simp
qed

lemma no_consumers_Test1_graph: "no_consumers Test1_graph"
  by (simp add: no_consumers_def Test1_graph_eq)

lemma Test1_effects:
  "fold (task_effect Test1_graph) [0, 2, 1, 3] [] = ''task1->task3->task2->task4''"
  by (simp add: task_effect_def invoke_task_def Test1_graph_eq Let_def)

text \<open>
  Test1 on a pool of one thread: every run reaches the same final state, in which no
  step is possible, \<^verbatim>\<open>execute\<close> returns, the callables have run in the order task1, task3,
  task2, task4 and the string \<^verbatim>\<open>out\<close> is "task1->task3->task2->task4"; every state of every
  run leads to this state, and it is the only state without a step.
\<close>

lemma Test1_final_state:
  "\<exists>t. reachable (execute_begin Test1_graph [] 1) t
       \<and> (\<forall>u. \<not> step t u)
       \<and> execute_returns t
       \<and> world t = ''task1->task3->task2->task4''
       \<and> started t = [0, 2, 1, 3]
       \<and> (\<forall>u. reachable (execute_begin Test1_graph [] 1) u \<longrightarrow> reachable u t)
       \<and> (\<forall>u. reachable (execute_begin Test1_graph [] 1) u \<and> (\<forall>v. \<not> step u v) \<longrightarrow> u = t)"
proof -
  obtain t where d: "drive (Suc (Suc (Suc (Suc (Suc (Suc (Suc (Suc (Suc (Suc (Suc (Suc (Suc (Suc (Suc (Suc (Suc (Suc (Suc (Suc (Suc (0)))))))))))))))))))))) (execute_begin Test1_graph [] (Suc 0)) = Some t"
    and t: "world t = ''task1->task3->task2->task4''" "initialNodes t = []" "started t = [0, 2, 1, 3]"
      "mCompletedTasks (graph t) = 4" "length (mNodes (graph t)) = 4"
    by (rule Test1_end)
  from t(2,4,5) have r: "execute_returns t" by (simp add: execute_returns_def)
  from drive_sound [OF d] have s: "reachable (execute_begin Test1_graph [] (Suc 0)) t" "successors t = []"
    "\<forall>u. reachable (execute_begin Test1_graph [] (Suc 0)) u \<and> successors u = [] \<longrightarrow> u = t" by blast+
  have b: "(\<forall>v. \<not> step u v) \<longleftrightarrow> successors u = []" for u :: "(unit, string) run_state"
    by (cases "successors u") (auto simp: step_successors)
  from s r t(1,3) drive_confluent [OF d] show ?thesis
    unfolding b One_nat_def by blast
qed

subsection \<open>Claims: runs\<close>

text \<open>
  C2. In every state of a run that starts from a graph that is ready for a run, on a pool
  of any size: a node that has been pushed to the pool is one of the initial nodes, whose
  pending counter was zero and which have no registered parent, or a node whose decrement in
  \<^verbatim>\<open>onArgumentReady\<close> returned zero; and for every node that has been pushed or whose
  decrement returned zero, the callable of every registered parent has run and no thread
  has a callback for this node left to call, that is, every registered parent has fired
  its completion callback. Only nodes that were pushed are executed.
\<close>

theorem parents_first:
  assumes "armed g" and "reachable (execute_begin g w xi_count) s"
  shows "(\<forall>c \<in> set (submitted s).
            c \<in> set (initialNodes (execute_begin g w xi_count)) \<or> c \<in> set (triggered s))
       \<and> (\<forall>c \<in> set (initialNodes (execute_begin g w xi_count)).
            mPendingCount (mNodes g ! c) = 0 \<and> registrations g c = 0)
       \<and> (\<forall>c \<in> set (submitted s) \<union> set (triggered s). \<forall>p < length (mNodes g).
            c \<in> set (mDescendantArguments (mNodes g ! p)) \<longrightarrow>
              p \<in> set (started s) \<and> (\<forall>t \<in> set (threads s). c \<notin> set (remaining t)))
       \<and> set (started s) \<subseteq> set (submitted s)"
proof -
  have inv: "run_inv g s" using assms by (rule run_inv_reachable)
  note D = run_invD [OF inv]
  have r: "initialNodes (execute_begin g (world s) 0) = initialNodes (execute_begin g w xi_count)"
    by (simp add: execute_begin_def)
  have cl: "claimed s = mset (triggered s) + mset (initialNodes (execute_begin g w xi_count))"
    using D(7) by (simp only: r)
  have 1: "c \<in> set (initialNodes (execute_begin g w xi_count)) \<or> c \<in> set (triggered s)"
    if "c \<in> set (submitted s)" for c
  proof -
    from that have "c \<in># claimed s" by (simp add: claimed_def)
    then show ?thesis unfolding cl by auto
  qed
  have 2: "mPendingCount (mNodes g ! c) = 0 \<and> registrations g c = 0"
    if "c \<in> set (initialNodes (execute_begin g w xi_count))" for c
  proof -
    from that have a: "c < length (mNodes g)" "mPendingCount (mNodes g ! c) = 0"
      by (simp_all add: execute_begin_def getPendingCount_def)
    with assms(1) show ?thesis by (auto simp: armed_def)
  qed
  have 3: "p \<in> set (started s) \<and> (\<forall>t \<in> set (threads s). c \<notin> set (remaining t))"
    if "c \<in> set (submitted s) \<union> set (triggered s)" and "p < length (mNodes g)"
      and "c \<in> set (mDescendantArguments (mNodes g ! p))" for c p
  proof -
    from that(1) have "c \<in># claimed s"
    proof
      assume "c \<in> set (submitted s)"
      then show ?thesis by (simp add: claimed_def)
    next
      assume "c \<in> set (triggered s)"
      then show ?thesis by (simp add: cl)
    qed
    from claimed_no_debt(1) [OF inv this] that(2,3) show ?thesis
      using no_debt_parents by blast
  qed
  have "mset (started s) \<subseteq># mset (submitted s)" by (simp add: D(9))
  then have 4: "set (started s) \<subseteq> set (submitted s)" by (metis set_mset_mono set_mset_mset)
  from 1 2 3 4 show ?thesis by blast
qed


theorem parents_first_witness:
  "armed Test1_graph
   \<and> (\<exists>t. reachable (execute_begin Test1_graph [] 1) t
          \<and> submitted t = [0, 2, 1, 3] \<and> triggered t = [2, 1, 3] \<and> started t = [0, 2, 1, 3]
          \<and> (\<forall>p < length (mNodes Test1_graph).
                1 \<in> set (mDescendantArguments (mNodes Test1_graph ! p)) \<longrightarrow> p \<in> set (started t)))"
proof -
  obtain t where d: "drive (Suc (Suc (Suc (Suc (Suc (Suc (Suc (Suc (Suc (Suc (Suc (Suc (Suc (Suc (Suc (Suc (Suc (Suc (Suc (Suc (Suc (0)))))))))))))))))))))) (execute_begin Test1_graph [] (Suc 0)) = Some t"
    and t: "submitted t = [0, 2, 1, 3]" "triggered t = [2, 1, 3]" "started t = [0, 2, 1, 3]"
    by (rule Test1_end)
  from drive_sound [OF d] have r: "reachable (execute_begin Test1_graph [] 1) t" by simp
  from parents_first [OF armed_Test1_graph r] t
  have "\<forall>p < length (mNodes Test1_graph).
          1 \<in> set (mDescendantArguments (mNodes Test1_graph ! p)) \<longrightarrow> p \<in> set (started t)"
    by simp
  with armed_Test1_graph r t show ?thesis by blast
qed

text \<open>
  C3. In every state of a run that starts from a graph that is ready for a run: no pending
  counter has been decremented at zero (none has gone below zero), the decrement in
  \<^verbatim>\<open>onArgumentReady\<close> has returned zero at most once for every node, every node has been
  pushed to the pool at most once, and a node whose decrement returned zero keeps its
  counter at zero and has been pushed or is pushed by the next step of the thread that
  decremented it; \<^verbatim>\<open>reset\<close> is what sets the counter again (C7).
\<close>

theorem one_shot_trigger:
  assumes "armed g" and "reachable (execute_begin g w xi_count) s"
  shows "\<not> underflow s
       \<and> distinct (triggered s)
       \<and> distinct (submitted s)
       \<and> (\<forall>c \<in> set (triggered s).
            mPendingCount (mNodes (graph s) ! c) = 0
            \<and> (c \<in> set (submitted s) \<or> (\<exists>n cs. Submitting n c cs \<in> set (threads s))))"
proof -
  have inv: "run_inv g s" using assms by (rule run_inv_reachable)
  note D = run_invD [OF inv]
  have r: "initialNodes (execute_begin g (world s) 0) = initialNodes (execute_begin g w xi_count)"
    by (simp add: execute_begin_def)
  have cl: "claimed s = mset (triggered s) + mset (initialNodes (execute_begin g w xi_count))"
    using D(7) by (simp only: r)
  have ct: "count (mset (triggered s)) c \<le> 1" for c
    using D(8) [of c] by (simp add: cl)
  have cs: "count (mset (submitted s)) c \<le> 1" for c
    using D(8) [of c] by (simp add: claimed_def)
  have dt: "distinct (triggered s)" using ct by (rule distinct_if_count_le_1)
  have ds: "distinct (submitted s)" using cs by (rule distinct_if_count_le_1)
  have tr: "mPendingCount (mNodes (graph s) ! c) = 0
            \<and> (c \<in> set (submitted s) \<or> (\<exists>n cs. Submitting n c cs \<in> set (threads s)))"
    if "c \<in> set (triggered s)" for c
  proof -
    from that have c: "c \<in># claimed s" by (simp add: cl)
    have "c \<notin> set (initialNodes s)"
    proof
      assume "c \<in> set (initialNodes s)"
      with reachable_initialNodes [OF assms(2)]
      have "c \<in> set (initialNodes (execute_begin g w xi_count))" by blast
      then have "count (mset (initialNodes (execute_begin g w xi_count))) c \<noteq> 0"
        by (simp add: count_eq_zero_iff)
      moreover from that have "count (mset (triggered s)) c \<noteq> 0"
        by (simp add: count_eq_zero_iff)
      moreover have "count (claimed s) c = count (mset (triggered s)) c
          + count (mset (initialNodes (execute_begin g w xi_count))) c"
        unfolding cl by simp
      ultimately have "2 \<le> count (claimed s) c" by linarith
      with D(8) [of c] show False by simp
    qed
    with c have "c \<in> set (submitted s) \<or> c \<in># (\<Sum>t \<leftarrow> threads s. subm_of t)"
      by (auto simp: claimed_def)
    then have "c \<in> set (submitted s) \<or> (\<exists>n cs. Submitting n c cs \<in> set (threads s))"
      by (auto simp: in_sum_list_mset subm_of_member)
    with D(6) [OF c] show ?thesis by simp
  qed
  from D(13) dt ds tr show ?thesis by blast
qed


theorem one_shot_trigger_witness:
  "armed Test1_graph
   \<and> (\<exists>t. reachable (execute_begin Test1_graph [] 1) t
          \<and> triggered t = [2, 1, 3] \<and> submitted t = [0, 2, 1, 3] \<and> \<not> underflow t
          \<and> mPendingCount (mNodes (graph t) ! 2) = 0)"
proof -
  obtain t where d: "drive (Suc (Suc (Suc (Suc (Suc (Suc (Suc (Suc (Suc (Suc (Suc (Suc (Suc (Suc (Suc (Suc (Suc (Suc (Suc (Suc (Suc (0)))))))))))))))))))))) (execute_begin Test1_graph [] (Suc 0)) = Some t"
    and t: "submitted t = [0, 2, 1, 3]" "triggered t = [2, 1, 3]"
    by (rule Test1_end)
  from drive_sound [OF d] have r: "reachable (execute_begin Test1_graph [] 1) t" by simp
  from one_shot_trigger [OF armed_Test1_graph r] t
  have "\<not> underflow t" "mPendingCount (mNodes (graph t) ! 2) = 0"
    by simp_all
  with armed_Test1_graph r t show ?thesis by blast
qed

text \<open>
  C4. A node whose callable takes at least one argument, in a graph that is ready for a
  run: its pending counter starts at the number of arguments plus the number of registered
  callbacks; in every state of the run the counter is not zero and the node has not been
  triggered, pushed, started or finished, \<^verbatim>\<open>mCompletedTasks\<close> differs from the number of
  nodes, and the condition that \<^verbatim>\<open>execute\<close> waits for is false.
\<close>

theorem arguments_block:
  assumes "armed g" and "reachable (execute_begin g w xi_count) s"
    and k: "k < length (mNodes g)" and a: "1 \<le> Args_size (mNodes g ! k)"
    and len: "length (mNodes g) < 2 ^ 64"
  shows "unat (mPendingCount (mNodes g ! k)) = Args_size (mNodes g ! k) + registrations g k
       \<and> mPendingCount (mNodes (graph s) ! k) \<noteq> 0
       \<and> k \<notin> set (triggered s)
       \<and> k \<notin> set (submitted s)
       \<and> k \<notin> set (started s)
       \<and> k \<notin> set (finished s)
       \<and> mCompletedTasks (graph s) \<noteq> of_nat (length (mNodes (graph s)))
       \<and> \<not> execute_returns s"
proof -
  have inv: "run_inv g s" using assms(1,2) by (rule run_inv_reachable)
  note D = run_invD [OF inv]
  have r: "initialNodes (execute_begin g (world s) 0) = initialNodes (execute_begin g w xi_count)"
    by (simp add: execute_begin_def)
  have cl: "claimed s = mset (triggered s) + mset (initialNodes (execute_begin g w xi_count))"
    using D(7) by (simp only: r)
  from assms(1) k have 0: "unat (mPendingCount (mNodes g ! k)) = Args_size (mNodes g ! k) + registrations g k"
    by (simp add: armed_def)
  from D(4) [OF k] a have "unat (mPendingCount (mNodes (graph s) ! k)) \<noteq> 0" by simp
  then have 1: "mPendingCount (mNodes (graph s) ! k) \<noteq> 0" by auto
  with D(6) [of k] have nc: "k \<notin># claimed s" by blast
  then have 2: "k \<notin> set (triggered s)" by (simp add: cl)
  from nc have 3: "k \<notin> set (submitted s)" by (simp add: claimed_def)
  have ss: "mset (started s) \<subseteq># mset (submitted s)" by (simp add: D(9))
  have fs: "mset (finished s) \<subseteq># mset (started s)" by (simp add: D(10))
  from ss 3 have 4: "k \<notin> set (started s)" by (metis set_mset_mono set_mset_mset subsetD)
  from fs 4 have 5: "k \<notin> set (finished s)" by (metis set_mset_mono set_mset_mset subsetD)
  have "count (mset (finished s)) c \<le> 1" for c
  proof -
    have "count (mset (finished s)) c \<le> count (mset (started s)) c"
      using fs by (rule mset_subset_eq_count)
    also have "\<dots> \<le> count (mset (submitted s)) c"
      using ss by (rule mset_subset_eq_count)
    also have "\<dots> \<le> count (claimed s) c" by (simp add: claimed_def)
    also have "\<dots> \<le> 1" by (rule D(8))
    finally show ?thesis .
  qed
  then have df: "distinct (finished s)" by (rule distinct_if_count_le_1)
  have "set (finished s) \<subseteq> set (started s)"
    using fs by (metis set_mset_mono set_mset_mset)
  with D(11) 5 have "set (finished s) \<subseteq> {..<length (mNodes g)} - {k}" by auto
  then have "card (set (finished s)) \<le> card ({..<length (mNodes g)} - {k})"
    by (rule card_mono [rotated]) simp
  with df k have "length (finished s) < length (mNodes g)"
    by (simp add: distinct_card)
  from of_nat_64_neq [OF this len] D(12) D(1)
  have 6: "mCompletedTasks (graph s) \<noteq> of_nat (length (mNodes (graph s)))" by simp
  then have 7: "\<not> execute_returns s" by (simp add: execute_returns_def)
  from 0 1 2 3 4 5 6 7 show ?thesis by blast
qed


theorem arguments_block_witness:
  "armed argument_example
   \<and> 1 < length (mNodes argument_example)
   \<and> 1 \<le> Args_size (mNodes argument_example ! 1)
   \<and> length (mNodes argument_example) < 2 ^ 64
   \<and> (\<exists>t. reachable (execute_begin argument_example () 1) t
          \<and> (\<forall>u. \<not> step t u)
          \<and> submitted t = [0]
          \<and> mPendingCount (mNodes (graph t) ! 1) \<noteq> 0
          \<and> mCompletedTasks (graph t) = 1
          \<and> \<not> execute_returns t)"
proof -
  obtain t where d: "drive (Suc (Suc (Suc (Suc (Suc (0)))))) (execute_begin argument_example () (Suc 0)) = Some t"
    and t: "submitted t = [0]" "mCompletedTasks (graph t) = 1"
    by (rule argument_end)
  from drive_sound [OF d] have r: "reachable (execute_begin argument_example () 1) t"
    and b: "successors t = []" by simp_all
  from b have n: "\<forall>u. \<not> step t u" by (simp add: step_successors)
  have h: "1 < length (mNodes argument_example)" "1 \<le> Args_size (mNodes argument_example ! 1)"
    "length (mNodes argument_example) < 2 ^ 64"
    by (simp_all add: argument_example_eq)
  from arguments_block [OF armed_argument_example r h]
  have "mPendingCount (mNodes (graph t) ! 1) \<noteq> 0" "\<not> execute_returns t" by simp_all
  with armed_argument_example h r n t show ?thesis by blast
qed

text \<open>
  C9. A run of a graph on a pool of one thread (the graph is ready for a run and no node has
  a result consumer; the callables may take arguments or not), in every state \<open>s\<close> that the
  run can be in:
  \<^item> FIFO submission: the nodes that were pushed to the pool are, in the order of the pushes,
    the nodes whose callable has run, in the order in which they ran, then the node that
    the thread has popped and not yet executed, then the queue. So the callables run in
    the order of submission, and when no step is left, the two orders are the same list;
  \<^item> the side effects: the world is what the callables make of the first world, applied in
    the order in which they ran;
  \<^item> dependency gating: every node has run after all the nodes that hold a callback for it
    (its parents);
  \<^item> notification in the order of registration: the callbacks that the thread has still to
    call for the node it executes are a final part of the \<^verbatim>\<open>mDescendantArguments\<close> of the
    node, in the order in which \<^verbatim>\<open>setParent\<close> appended them;
  \<^item> with at most one initial node, every state has at most one next state, so that the
    order is a function of the graph (with more initial nodes, the calling thread pushes
    them while the thread of the pool runs, and the order depends on the interleaving).

  For the graph of Test1: every run reaches the same final state, in which no step is
  possible, \<^verbatim>\<open>execute\<close> returns, the callables have run in the order task1, task3, task2,
  task4 and the string \<^verbatim>\<open>out\<close> is "task1->task3->task2->task4"; every state of every run
  leads to this state, and it is the only state without a step.
\<close>

theorem single_worker_order:
  assumes "armed g" and "no_consumers g" and "reachable (execute_begin g w 1) s"
  shows "submitted s = started s @ concat (map popped (threads s)) @ mQueue (mPool (graph s))
       \<and> world s = fold (task_effect g) (started s) w
       \<and> (\<forall>i < length (started s). \<forall>p < length (mNodes g).
            started s ! i \<in> set (mDescendantArguments (mNodes g ! p)) \<longrightarrow> p \<in> set (take i (started s)))
       \<and> (\<forall>t \<in> set (threads s).
            (\<forall>n cs. t = Notifying n cs \<longrightarrow> (\<exists>d. mDescendantArguments (mNodes g ! n) = d @ cs))
            \<and> (\<forall>n c cs. t = Submitting n c cs \<longrightarrow> (\<exists>d. mDescendantArguments (mNodes g ! n) = d @ c # cs)))
       \<and> ((\<forall>u. \<not> step s u) \<longrightarrow> started s = submitted s)
       \<and> (length (initialNodes (execute_begin g w 1)) \<le> 1 \<longrightarrow>
            (\<forall>s1 s2. step s s1 \<and> step s s2 \<longrightarrow> s1 = s2))
       \<and> (\<exists>t. reachable (execute_begin Test1_graph [] 1) t
             \<and> (\<forall>u. \<not> step t u)
             \<and> execute_returns t
             \<and> world t = ''task1->task3->task2->task4''
             \<and> started t = [0, 2, 1, 3]
             \<and> (\<forall>u. reachable (execute_begin Test1_graph [] 1) u \<longrightarrow> reachable u t)
             \<and> (\<forall>u. reachable (execute_begin Test1_graph [] 1) u \<and> (\<forall>v. \<not> step u v) \<longrightarrow> u = t))"
proof -
  have f: "submitted s = started s @ concat (map popped (threads s)) @ mQueue (mPool (graph s))"
    using assms by (rule fifo_reachable)
  have oi: "order_inv g w s" using assms by (rule order_inv_reachable)
  from oi have A: "world s = fold (task_effect g) (started s) w"
    and B: "\<forall>i < length (started s). \<forall>p < length (mNodes g).
            started s ! i \<in> set (mDescendantArguments (mNodes g ! p)) \<longrightarrow> p \<in> set (take i (started s))"
    and C: "\<forall>t \<in> set (threads s).
            (\<forall>n cs. t = Notifying n cs \<longrightarrow> (\<exists>d. mDescendantArguments (mNodes g ! n) = d @ cs))
            \<and> (\<forall>n c cs. t = Submitting n c cs \<longrightarrow> (\<exists>d. mDescendantArguments (mNodes g ! n) = d @ c # cs))"
    unfolding order_inv_def by blast+
  have D: "(\<forall>u. \<not> step s u) \<longrightarrow> started s = submitted s"
  proof
    assume "\<forall>u. \<not> step s u"
    with assms have "threads s = [Idle] \<and> mQueue (mPool (graph s)) = [] \<and> initialNodes s = []"
      by (rule stuck_single)
    with f show "started s = submitted s" by simp
  qed
  from reachable_static [OF assms(3), of 0] have l: "length (threads s) = 1"
    by (simp add: execute_begin_def)
  have E: "length (initialNodes (execute_begin g w 1)) \<le> 1 \<longrightarrow>
            (\<forall>s1 s2. step s s1 \<and> step s s2 \<longrightarrow> s1 = s2)"
  proof (intro impI allI)
    fix s1 s2
    assume "length (initialNodes (execute_begin g w 1)) \<le> 1"
    with assms(1) have o: "one_at_a_time s" using assms(3) by (rule one_at_a_time_reachable)
    assume "step s s1 \<and> step s s2"
    then have "step s s1" "step s s2" by simp_all
    with l o show "s1 = s2" by (rule no_choice)
  qed
  show ?thesis by (rule conjI [OF f conjI [OF A conjI [OF B conjI [OF C conjI [OF D conjI [OF E Test1_final_state]]]]]])
qed

theorem single_worker_order_witness:
  "\<exists>t. armed Test1_graph \<and> no_consumers Test1_graph
       \<and> reachable (execute_begin Test1_graph [] 1) t
       \<and> length (initialNodes (execute_begin Test1_graph [] 1)) \<le> 1
       \<and> submitted t = [0, 2, 1, 3]
       \<and> started t = submitted t
       \<and> world t = fold (task_effect Test1_graph) [0, 2, 1, 3] []
       \<and> world t = ''task1->task3->task2->task4''"
proof -
  obtain t where d: "drive (Suc (Suc (Suc (Suc (Suc (Suc (Suc (Suc (Suc (Suc (Suc (Suc (Suc (Suc (Suc (Suc (Suc (Suc (Suc (Suc (Suc (0)))))))))))))))))))))) (execute_begin Test1_graph [] (Suc 0)) = Some t"
    and t: "submitted t = [0, 2, 1, 3]"
    by (rule Test1_end)
  from drive_sound [OF d] have r: "reachable (execute_begin Test1_graph [] 1) t"
    and b: "successors t = []" by simp_all
  from b have n: "\<forall>u. \<not> step t u" by (simp add: step_successors)
  have i: "length (initialNodes (execute_begin Test1_graph [] 1)) \<le> 1"
    by (simp add: execute_begin_def Test1_graph_eq getPendingCount_def upt_rec)
  note T = single_worker_order [OF armed_Test1_graph no_consumers_Test1_graph r]
  from T n have s: "started t = submitted t" by blast
  from T have "world t = fold (task_effect Test1_graph) (started t) []" by blast
  with s t have w: "world t = fold (task_effect Test1_graph) [0, 2, 1, 3] []" by simp
  then have "world t = ''task1->task3->task2->task4''" by (simp only: Test1_effects)
  with armed_Test1_graph no_consumers_Test1_graph r i t s w show ?thesis by blast
qed

subsection \<open>Claims: result consumers\<close>




end
